theory Spec2Isabelle
  imports Main "HOL-Library.Sublist" "HOL-Library.AList"
begin

section \<open>The document tree\<close>

text \<open>
  The guard script (Enhanced Legacy Notification Guard v4) reads and extends the live
  document. An element carries the properties the script reads or writes: its local
  name, its \<open>id\<close>, its \<open>className\<close>, its inline style text and its other attributes.
  A node is an element with its child nodes, or a text node.
\<close>

record props =
  localName :: string
  elem_id :: string
  className :: string
  cssText :: string
  attributes :: "(string \<times> string) list"

datatype node = Text string | Element props "node list"

text \<open>Exceptions of the DOM and of the language, as values.\<close>

datatype dom_error = HierarchyRequestError | TypeError | SyntaxError

definition TAG :: string where
  "TAG = ''[LegacyNotifGuard-v4]''"

definition SEL :: string where
  "SEL = ''#home-header2 .container > div''"

definition HEADER_ID :: string where
  "HEADER_ID = ''home-header2''"

subsection \<open>Selectors on a single element\<close>

definition is_ws :: "char \<Rightarrow> bool" where
  "is_ws c = (c = CHR '' '' \<or> c = CHR 0x09 \<or> c = CHR 0x0A \<or> c = CHR 0x0C \<or> c = CHR 0x0D)"

text \<open>The class list of an element: its \<open>className\<close> split at ASCII whitespace.\<close>

fun class_tokens :: "string \<Rightarrow> string \<Rightarrow> string list" where
  "class_tokens cur [] = (if cur = [] then [] else [cur])"
| "class_tokens cur (c # cs) =
     (if is_ws c then (if cur = [] then class_tokens [] cs else cur # class_tokens [] cs)
      else class_tokens (cur @ [c]) cs)"

definition classList :: "props \<Rightarrow> string list" where
  "classList p = class_tokens [] (className p)"

text \<open>The three simple selectors the script uses: \<open>#home-header2\<close>, \<open>.container\<close>, \<open>div\<close>.\<close>

definition has_id :: "string \<Rightarrow> props \<Rightarrow> bool" where
  "has_id i p = (elem_id p = i)"

definition has_class :: "string \<Rightarrow> props \<Rightarrow> bool" where
  "has_class c p = (c \<in> set (classList p))"

definition has_tag :: "string \<Rightarrow> props \<Rightarrow> bool" where
  "has_tag t p = (localName p = t)"

subsection \<open>Lookups in document order\<close>

text \<open>
  \<open>find_node P n\<close> is the first element of the subtree of \<open>n\<close> (\<open>n\<close> included), in
  document order, whose properties satisfy \<open>P\<close>; \<open>find_nodes\<close> is the same over a list
  of siblings. Text nodes never match an element selector.
\<close>

fun find_node :: "(props \<Rightarrow> bool) \<Rightarrow> node \<Rightarrow> node option"
  and find_nodes :: "(props \<Rightarrow> bool) \<Rightarrow> node list \<Rightarrow> node option" where
  "find_node P (Text s) = None"
| "find_node P (Element p ks) = (if P p then Some (Element p ks) else find_nodes P ks)"
| "find_nodes P [] = None"
| "find_nodes P (k # ks) =
     (case find_node P k of Some r \<Rightarrow> Some r | None \<Rightarrow> find_nodes P ks)"

text \<open>
  \<open>document.getElementById(i)\<close>: the first element of the document with that id. The
  document is given by its document element, \<open>None\<close> when it has none.
\<close>

definition getElementById :: "string \<Rightarrow> node option \<Rightarrow> node option" where
  "getElementById i doc = (case doc of None \<Rightarrow> None | Some root \<Rightarrow> find_node (has_id i) root)"

text \<open>
  \<open>n.querySelector(sel)\<close> for a simple selector: the first descendant of \<open>n\<close> that
  matches (\<open>n\<close> itself is not a candidate). A text node has no such method.
\<close>

fun querySelector :: "(props \<Rightarrow> bool) \<Rightarrow> node \<Rightarrow> dom_error + node option" where
  "querySelector P (Element p ks) = Inr (find_nodes P ks)"
| "querySelector P (Text s) = Inl TypeError"

fun childNodes :: "node \<Rightarrow> node list" where
  "childNodes (Element p ks) = ks"
| "childNodes (Text s) = []"

definition lastChild :: "node \<Rightarrow> node option" where
  "lastChild n = (if childNodes n = [] then None else Some (last (childNodes n)))"

definition firstChild :: "node \<Rightarrow> node option" where
  "firstChild n = (case childNodes n of [] \<Rightarrow> None | k # _ \<Rightarrow> Some k)"

fun is_body :: "node \<Rightarrow> bool" where
  "is_body (Element p ks) = (localName p = ''body'' \<or> localName p = ''frameset'')"
| "is_body (Text s) = False"

text \<open>
  \<open>document.body\<close>: the first \<open>body\<close> or \<open>frameset\<close> child of the document element,
  when that is an \<open>html\<close> element.
\<close>

definition document_body :: "node option \<Rightarrow> node option" where
  "document_body doc =
     (case doc of
        Some (Element p ks) \<Rightarrow> if localName p = ''html'' then find is_body ks else None
      | _ \<Rightarrow> None)"

subsection \<open>Mutations\<close>

text \<open>
  \<open>parent.appendChild(c)\<close> and \<open>parent.insertBefore(c, parent.firstChild)\<close>. Only an
  element (of the node kinds modelled here) accepts children; a text node raises
  \<open>HierarchyRequestError\<close>.
\<close>

fun appendChild :: "node \<Rightarrow> node \<Rightarrow> dom_error + node" where
  "appendChild (Element p ks) c = Inr (Element p (ks @ [c]))"
| "appendChild (Text s) c = Inl HierarchyRequestError"

fun insertBefore_firstChild :: "node \<Rightarrow> node \<Rightarrow> dom_error + node" where
  "insertBefore_firstChild (Element p ks) c = Inr (Element p (c # ks))"
| "insertBefore_firstChild (Text s) c = Inl HierarchyRequestError"

text \<open>
  The script holds references to nodes it has looked up and mutates them in place. In
  the tree model a reference obtained by a first-match lookup is that first match's
  position, and a mutation through the reference rewrites the subtree at that position:
  \<open>update_node P f n\<close> applies \<open>f\<close> to the first element of \<open>n\<close>'s subtree (in document
  order, \<open>n\<close> included) that satisfies \<open>P\<close>, and leaves everything else as it is. An
  exception raised by \<open>f\<close> propagates.
\<close>

fun update_node :: "(props \<Rightarrow> bool) \<Rightarrow> (node \<Rightarrow> dom_error + node) \<Rightarrow> node \<Rightarrow> dom_error + node"
  and update_nodes :: "(props \<Rightarrow> bool) \<Rightarrow> (node \<Rightarrow> dom_error + node) \<Rightarrow> node list \<Rightarrow> dom_error + node list" where
  "update_node P f (Text s) = Inr (Text s)"
| "update_node P f (Element p ks) =
     (if P p then f (Element p ks)
      else (case update_nodes P f ks of Inl e \<Rightarrow> Inl e | Inr ks' \<Rightarrow> Inr (Element p ks')))"
| "update_nodes P f [] = Inr []"
| "update_nodes P f (k # ks) =
     (if find_node P k \<noteq> None
      then (case update_node P f k of Inl e \<Rightarrow> Inl e | Inr k' \<Rightarrow> Inr (k' # ks))
      else (case update_nodes P f ks of Inl e \<Rightarrow> Inl e | Inr ks' \<Rightarrow> Inr (k # ks')))"

text \<open>The same through a reference returned by \<open>n.querySelector\<close>: among the descendants.\<close>

fun update_descendant :: "(props \<Rightarrow> bool) \<Rightarrow> (node \<Rightarrow> dom_error + node) \<Rightarrow> node \<Rightarrow> dom_error + node" where
  "update_descendant P f (Element p ks) =
     (case update_nodes P f ks of Inl e \<Rightarrow> Inl e | Inr ks' \<Rightarrow> Inr (Element p ks'))"
| "update_descendant P f (Text s) = Inl TypeError"

text \<open>The first child that is the body, rewritten by \<open>f\<close>.\<close>

fun update_body :: "(node \<Rightarrow> dom_error + node) \<Rightarrow> node list \<Rightarrow> dom_error + node list" where
  "update_body f [] = Inr []"
| "update_body f (k # ks) =
     (if is_body k then (case f k of Inl e \<Rightarrow> Inl e | Inr k' \<Rightarrow> Inr (k' # ks))
      else (case update_body f ks of Inl e \<Rightarrow> Inl e | Inr ks' \<Rightarrow> Inr (k # ks')))"

subsection \<open>Creating elements\<close>

definition createElement :: "string \<Rightarrow> node" where
  "createElement t =
     Element \<lparr>localName = t, elem_id = [], className = [], cssText = [], attributes = []\<rparr> []"

fun set_id :: "string \<Rightarrow> node \<Rightarrow> node" where
  "set_id v (Element p ks) = Element (p\<lparr>elem_id := v\<rparr>) ks"
| "set_id v (Text s) = Text s"

fun set_className :: "string \<Rightarrow> node \<Rightarrow> node" where
  "set_className v (Element p ks) = Element (p\<lparr>className := v\<rparr>) ks"
| "set_className v (Text s) = Text s"

fun set_cssText :: "string \<Rightarrow> node \<Rightarrow> node" where
  "set_cssText v (Element p ks) = Element (p\<lparr>cssText := v\<rparr>) ks"
| "set_cssText v (Text s) = Text s"

fun setAttribute :: "string \<Rightarrow> string \<Rightarrow> node \<Rightarrow> node" where
  "setAttribute a v (Element p ks) =
     Element (p\<lparr>attributes := AList.update a v (attributes p)\<rparr>) ks"
| "setAttribute a v (Text s) = Text s"

text \<open>The four nodes \<open>ensureStub\<close> creates, each as the script configures it.\<close>

definition new_header :: node where
  "new_header =
     setAttribute ''data-legacy-guard'' ''v4''
       (set_cssText ''display: none !important; visibility: hidden !important; position: absolute; left: -9999px;''
         (set_id HEADER_ID (createElement ''div'')))"

definition new_container :: node where
  "new_container =
     set_cssText ''display: none !important;'' (set_className ''container'' (createElement ''div''))"

definition new_innerDiv :: node where
  "new_innerDiv = set_cssText ''display: none !important;'' (createElement ''div'')"

definition new_stub :: node where
  "new_stub =
     setAttribute ''data-stub'' ''true''
       (set_cssText ''display: none !important;''
         (set_className ''notification-badge-stub'' (createElement ''span'')))"

section \<open>The guard's state and \<open>ensureStub\<close>\<close>

text \<open>
  The values the script passes to the console and through the wrapped functions:
  \<open>undefined\<close>, \<open>null\<close>, a string, a symbol, or any other value (number, boolean,
  object, function), which is given by what the language's string conversion makes of
  it: \<open>Some\<close> text, or \<open>None\<close> when the conversion raises (an object with no usable
  \<open>toString\<close>).
\<close>

datatype jsval = Undefined | Null | Str string | Symbol string | Other "string option"

datatype level = Log | Warn | Error

type_synonym log_entry = "level \<times> jsval list"

text \<open>
  The page as the guard sees it: the document, the script's two variables
  (\<open>stubEnsured\<close>, \<open>observer\<close>), the console, and what the script has registered with
  the browser. \<open>observer\<close> is \<open>None\<close> while the variable is \<open>null\<close>; \<open>Some b\<close> is a
  created observer, \<open>b\<close> telling whether \<open>observe(document.body, ...)\<close> was called.
\<close>

datatype ready_state = Loading | Interactive | Complete

record page =
  document :: "node option"
  readyState :: ready_state
  stubEnsured :: bool
  observer :: "bool option"
  console :: "log_entry list"
  domContentLoaded_listener :: bool
  load_listener :: bool
  click_listener :: bool
  interval_timer :: "nat option"
  timeouts :: "nat list"
  querySelector_patched :: bool
  defineProperty_patched :: bool

definition console_log :: "jsval list \<Rightarrow> page \<Rightarrow> page" where
  "console_log args s = s\<lparr>console := console s @ [(Log, args)]\<rparr>"

definition console_warn :: "jsval list \<Rightarrow> page \<Rightarrow> page" where
  "console_warn args s = s\<lparr>console := console s @ [(Warn, args)]\<rparr>"

fun show_error :: "dom_error \<Rightarrow> string" where
  "show_error HierarchyRequestError = ''HierarchyRequestError''"
| "show_error TypeError = ''TypeError''"
| "show_error SyntaxError = ''SyntaxError''"

definition error_value :: "dom_error \<Rightarrow> jsval" where
  "error_value e = Other (Some (show_error e))"

text \<open>
  The three lower levels of the chain, each on the node the level above has found or
  created: the last child of the inner div, the inner div of the container, the
  container of the header.
\<close>

definition ensure_lastChild :: "node \<Rightarrow> dom_error + node" where
  "ensure_lastChild innerDiv =
     (if lastChild innerDiv = None then appendChild innerDiv new_stub else Inr innerDiv)"

definition ensure_innerDiv :: "node \<Rightarrow> dom_error + node" where
  "ensure_innerDiv container =
     (case querySelector (has_tag ''div'') container of
        Inl e \<Rightarrow> Inl e
      | Inr found \<Rightarrow>
          (case (if found = None then appendChild container new_innerDiv else Inr container) of
             Inl e \<Rightarrow> Inl e
           | Inr container' \<Rightarrow> update_descendant (has_tag ''div'') ensure_lastChild container'))"

definition ensure_container :: "node \<Rightarrow> dom_error + node" where
  "ensure_container header =
     (case querySelector (has_class ''container'') header of
        Inl e \<Rightarrow> Inl e
      | Inr found \<Rightarrow>
          (case (if found = None then appendChild header new_container else Inr header) of
             Inl e \<Rightarrow> Inl e
           | Inr header' \<Rightarrow> update_descendant (has_class ''container'') ensure_innerDiv header'))"

text \<open>
  The header level: the document after the header has been looked up and, when absent,
  created and inserted as the first child of the body, or appended to the document
  element when there is no body. With neither, the new header stays detached: the
  document is unchanged (\<open>Inr None\<close> here records that the header is not in it).
\<close>

definition insert_header :: "node option \<Rightarrow> dom_error + node option" where
  "insert_header doc =
     (if document_body doc \<noteq> None then
        (case doc of
           Some (Element p ks) \<Rightarrow>
             (case update_body (\<lambda>b. insertBefore_firstChild b new_header) ks of
                Inl e \<Rightarrow> Inl e | Inr ks' \<Rightarrow> Inr (Some (Element p ks')))
         | _ \<Rightarrow> Inl TypeError)
      else
        (case doc of
           Some root \<Rightarrow> (case appendChild root new_header of Inl e \<Rightarrow> Inl e | Inr r \<Rightarrow> Inr (Some r))
         | None \<Rightarrow> Inr None))"

text \<open>
  The body of the \<open>try\<close> block of \<open>ensureStub\<close>: \<open>Inl\<close> is an exception raised inside
  it, \<open>Inr\<close> the page it leaves.
\<close>

definition ensureStub_try :: "page \<Rightarrow> dom_error + page" where
  "ensureStub_try s =
     (if getElementById HEADER_ID (document s) \<noteq> None then
        (case document s of
           None \<Rightarrow> Inl TypeError
         | Some root \<Rightarrow>
             (case update_node (has_id HEADER_ID) ensure_container root of
                Inl e \<Rightarrow> Inl e
              | Inr root' \<Rightarrow>
                  Inr (console_log [Str TAG, Str ''Stub structure verified/created successfully'']
                        (s\<lparr>document := Some root', stubEnsured := True\<rparr>))))
      else
        (let s1 = console_log [Str TAG, Str ''Creating stub header element''] s in
         case insert_header (document s1) of
           Inl e \<Rightarrow> Inl e
         | Inr None \<Rightarrow>
             (case ensure_container new_header of
                Inl e \<Rightarrow> Inl e
              | Inr detached \<Rightarrow>
                  Inr (console_log [Str TAG, Str ''Stub structure verified/created successfully'']
                        (s1\<lparr>stubEnsured := True\<rparr>)))
         | Inr (Some root1) \<Rightarrow>
             (case update_node (has_id HEADER_ID) ensure_container root1 of
                Inl e \<Rightarrow> Inl e
              | Inr root' \<Rightarrow>
                  Inr (console_log [Str TAG, Str ''Stub structure verified/created successfully'']
                        (s1\<lparr>document := Some root', stubEnsured := True\<rparr>)))))"

text \<open>
  \<open>ensureStub\<close>: the \<open>try\<close> block and its \<open>catch\<close>. The result is the returned boolean
  and the page afterwards. A caught exception leaves the page as it was when the
  block was entered, but for the warning: the model does not keep a partial insertion.
\<close>

definition ensureStub :: "page \<Rightarrow> bool \<times> page" where
  "ensureStub s =
     (case ensureStub_try s of
        Inr s' \<Rightarrow> (True, s')
      | Inl err \<Rightarrow> (False, console_warn [Str TAG, Str ''ensureStub error (will retry):'', error_value err] s))"

text \<open>\<open>n\<close> calls of \<open>ensureStub\<close> in a row.\<close>

fun ensureStub_times :: "nat \<Rightarrow> page \<Rightarrow> page" where
  "ensureStub_times 0 s = s"
| "ensureStub_times (Suc n) s = ensureStub_times n (snd (ensureStub s))"

section \<open>The console override\<close>

text \<open>\<open>s.includes(t)\<close> on strings: \<open>t\<close> occurs in \<open>s\<close> as a contiguous run.\<close>

fun js_includes :: "string \<Rightarrow> string \<Rightarrow> bool" where
  "js_includes [] t = (t = [])"
| "js_includes (c # cs) t = (prefix t (c # cs) \<or> js_includes cs t)"

text \<open>
  \<open>args.join(' ')\<close>: each element is converted to a string, \<open>undefined\<close> and \<open>null\<close> to
  the empty string; a symbol, or an object whose conversion raises, makes the whole
  call raise \<open>TypeError\<close>.
\<close>

fun join_element :: "jsval \<Rightarrow> dom_error + string" where
  "join_element Undefined = Inr []"
| "join_element Null = Inr []"
| "join_element (Str t) = Inr t"
| "join_element (Symbol d) = Inl TypeError"
| "join_element (Other (Some t)) = Inr t"
| "join_element (Other None) = Inl TypeError"

fun join_args :: "jsval list \<Rightarrow> dom_error + string" where
  "join_args [] = Inr []"
| "join_args [x] = join_element x"
| "join_args (x # y # ys) =
     (case join_element x of
        Inl e \<Rightarrow> Inl e
      | Inr t \<Rightarrow> (case join_args (y # ys) of Inl e \<Rightarrow> Inl e | Inr r \<Rightarrow> Inr (t @ '' '' @ r)))"

definition originalConsoleError :: "jsval list \<Rightarrow> page \<Rightarrow> page" where
  "originalConsoleError args s = s\<lparr>console := console s @ [(Error, args)]\<rparr>"

text \<open>
  The function the script installs as \<open>console.error\<close>. \<open>Inl\<close> is an exception that
  leaves the call.
\<close>

definition console_error :: "jsval list \<Rightarrow> page \<Rightarrow> dom_error + page" where
  "console_error args s =
     (case join_args args of
        Inl e \<Rightarrow> Inl e
      | Inr msg \<Rightarrow>
          if js_includes msg ''lastChild'' \<and> js_includes msg ''home-header2''
          then Inr (console_warn [Str TAG, Str ''Suppressed error:'', Str msg] s)
          else if js_includes msg ''updateTabletBadge'' \<or> js_includes msg ''initNotificationBadge''
          then Inr (console_warn [Str TAG, Str ''Suppressed notification badge error:'', Str msg] s)
          else Inr (originalConsoleError args s))"

section \<open>Wrapping the legacy functions\<close>

text \<open>
  A global function of the page takes its \<open>this\<close> value and its arguments, and runs on
  the page: it returns a value (\<open>Inr\<close>) or throws one (\<open>Inl\<close>), and leaves the page as
  it has changed it up to then. A property of \<open>window\<close> is such a function or any other
  value. (The functions cannot redefine the properties of \<open>window\<close> in this model.)
\<close>

type_synonym js_function = "jsval \<Rightarrow> jsval list \<Rightarrow> page \<Rightarrow> (jsval + jsval) \<times> page"

datatype global = Function js_function | Value jsval

type_synonym window = "string \<Rightarrow> global option"

definition safeWrap :: "js_function \<Rightarrow> string \<Rightarrow> js_function" where
  "safeWrap fn name = (\<lambda>this args s.
     let s1 = snd (ensureStub s) in
     (case fn this args s1 of
        (Inr result, s2) \<Rightarrow> (Inr result, s2)
      | (Inl err, s2) \<Rightarrow>
          (Inr Null, console_warn [Str TAG, Str (''Caught error in '' @ name @ '':''), err] s2)))"

definition legacyFunctions :: "string list" where
  "legacyFunctions =
     [''updateTabletBadge'', ''initNotificationBadge'', ''checkLoggedInUser'',
      ''updateNotificationCount'', ''refreshNotifications'']"

fun wrap_each :: "string list \<Rightarrow> window \<times> page \<Rightarrow> window \<times> page" where
  "wrap_each [] ws = ws"
| "wrap_each (fname # rest) (w, s) =
     (case w fname of
        Some (Function original) \<Rightarrow>
          wrap_each rest
            (w(fname \<mapsto> Function (safeWrap original fname)),
             console_log [Str TAG, Str (''Wrapped function: '' @ fname)] s)
      | _ \<Rightarrow> wrap_each rest (w, s))"

text \<open>
  \<open>wrapLegacyFunctions\<close>: the loop over the five names, then the replacement of
  \<open>Object.defineProperty\<close> (recorded as installed; later definitions are not modelled).
\<close>

definition wrapLegacyFunctions :: "window \<times> page \<Rightarrow> window \<times> page" where
  "wrapLegacyFunctions ws =
     (case wrap_each legacyFunctions ws of (w, s) \<Rightarrow> (w, s\<lparr>defineProperty_patched := True\<rparr>))"

section \<open>The mutation observer and the periodic check\<close>

datatype mutation_type = ChildList | Attributes | CharacterData

record mutation_record =
  mtype :: mutation_type
  removedNodes :: "node list"

text \<open>
  The test the observer's callback applies to a removed node:
  \<open>node.id === HEADER_ID || (node.nodeType === 1 && node.querySelector('#home-header2'))\<close>.
\<close>

fun removed_header :: "node \<Rightarrow> bool" where
  "removed_header (Element p ks) =
     (elem_id p = HEADER_ID \<or> find_nodes (has_id HEADER_ID) ks \<noteq> None)"
| "removed_header (Text t) = False"

text \<open>
  The callback's loop: every child-list record with such a removed node logs a warning
  and sets \<open>needsCheck\<close> (the \<open>break\<close> leaves the inner loop only).
\<close>

fun scan_mutations :: "mutation_record list \<Rightarrow> bool \<times> page \<Rightarrow> bool \<times> page" where
  "scan_mutations [] bs = bs"
| "scan_mutations (m # ms) (needsCheck, s) =
     (if mtype m = ChildList \<and> list_ex removed_header (removedNodes m)
      then scan_mutations ms
             (True, console_warn [Str TAG, Str ''Stub structure was removed! Recreating...''] s)
      else scan_mutations ms (needsCheck, s))"

definition mutation_callback :: "mutation_record list \<Rightarrow> page \<Rightarrow> page" where
  "mutation_callback mutations s =
     (case scan_mutations mutations (False, s) of
        (needsCheck, s1) \<Rightarrow>
          if needsCheck then snd (ensureStub (s1\<lparr>stubEnsured := False\<rparr>)) else s1)"

definition setupMutationObserver :: "page \<Rightarrow> page" where
  "setupMutationObserver s =
     (if observer s \<noteq> None then s
      else if document_body (document s) \<noteq> None
      then console_log [Str TAG, Str ''Mutation observer activated''] (s\<lparr>observer := Some True\<rparr>)
      else s\<lparr>observer := Some False\<rparr>)"

text \<open>The body of the function given to \<open>setInterval\<close>.\<close>

definition periodic_check :: "page \<Rightarrow> page" where
  "periodic_check s =
     (if \<not> stubEnsured s \<or> getElementById HEADER_ID (document s) = None
      then snd (ensureStub
             (console_warn [Str TAG, Str ''Periodic check found stub missing, recreating...''] s))
      else s)"

section \<open>The patched \<open>querySelector\<close>\<close>

text \<open>
  The replacement of \<open>Document.prototype.querySelector\<close>, called on the document. The
  original lookup is a parameter: it maps a selector and a document to an element or
  \<open>null\<close>, or raises (\<open>SyntaxError\<close> on a selector it cannot parse).
\<close>

type_synonym lookup = "string \<Rightarrow> node option \<Rightarrow> dom_error + node option"

definition patched_querySelector :: "lookup \<Rightarrow> string \<Rightarrow> page \<Rightarrow> (dom_error + node option) \<times> page" where
  "patched_querySelector originalQuerySelector selector s =
     (case originalQuerySelector selector (document s) of
        Inl e \<Rightarrow> (Inl e, s)
      | Inr result \<Rightarrow>
          if result = None \<and> js_includes selector ''home-header2''
          then
            (let s1 = console_warn
                        [Str TAG, Str (''querySelector returned null for: '' @ selector @ '', ensuring stub...'')] s;
                 s2 = snd (ensureStub s1)
             in (originalQuerySelector selector (document s2), s2))
          else (Inr result, s))"

definition patchQuerySelector :: "page \<Rightarrow> page" where
  "patchQuerySelector s = s\<lparr>querySelector_patched := True\<rparr>"

section \<open>The click guard\<close>

fun textContent :: "node \<Rightarrow> string"
  and textContents :: "node list \<Rightarrow> string" where
  "textContent (Text t) = t"
| "textContent (Element p ks) = textContents ks"
| "textContents [] = []"
| "textContents (k # ks) = textContent k @ textContents ks"

text \<open>
  A click event, as the listener reads it: its target (\<open>None\<close> when \<open>e.target\<close> is
  \<open>null\<close>) and the target's \<open>href\<close> property (\<open>None\<close> when the target has none). A
  target with no \<open>matches\<close> method is not an element; the model has text nodes for that.
\<close>

record click_event =
  target :: "node option"
  href :: "string option"

text \<open>\<open>target.matches('button, a, [role="button"]')\<close>.\<close>

definition matches_button :: "props \<Rightarrow> bool" where
  "matches_button p =
     (localName p = ''button'' \<or> localName p = ''a'' \<or> map_of (attributes p) ''role'' = Some ''button'')"

definition isJoinButton :: "click_event \<Rightarrow> props \<Rightarrow> node list \<Rightarrow> bool" where
  "isJoinButton e p ks =
     (matches_button p \<and>
      (js_includes (textContent (Element p ks)) ''Join session'' \<or>
       js_includes (textContent (Element p ks)) ''Start meeting'' \<or>
       (case href e of None \<Rightarrow> False | Some h \<Rightarrow> h \<noteq> [] \<and> js_includes h ''zoom'')))"

text \<open>
  The listener \<open>setupJoinSessionGuard\<close> registers. It calls \<open>ensureStub\<close> at once and
  schedules two more calls, after 100 and 500 milliseconds.
\<close>

definition click_listener_body :: "click_event \<Rightarrow> page \<Rightarrow> dom_error + page" where
  "click_listener_body e s =
     (case target e of
        None \<Rightarrow> Inr s
      | Some (Text t) \<Rightarrow> Inl TypeError
      | Some (Element p ks) \<Rightarrow>
          if isJoinButton e p ks
          then
            (let s1 = console_log [Str TAG, Str ''Join session click detected, ensuring stub...''] s;
                 s2 = snd (ensureStub s1)
             in Inr (s2\<lparr>timeouts := timeouts s2 @ [100, 500]\<rparr>))
          else Inr s)"

definition setupJoinSessionGuard :: "page \<Rightarrow> page" where
  "setupJoinSessionGuard s =
     console_log [Str TAG, Str ''Join session guard installed''] (s\<lparr>click_listener := True\<rparr>)"

section \<open>Initialization\<close>

definition domContentLoaded_body :: "page \<Rightarrow> page" where
  "domContentLoaded_body s =
     setupMutationObserver
       (snd (ensureStub (console_log [Str TAG, Str ''DOM ready, re-ensuring stub...''] s)))"

definition load_body :: "page \<Rightarrow> page" where
  "load_body s =
     snd (ensureStub (console_log [Str TAG, Str ''Page fully loaded, final stub check...''] s))"

definition init :: "window \<times> page \<Rightarrow> window \<times> page" where
  "init ws =
     (case ws of (w, s) \<Rightarrow>
       let s0 = console_log [Str TAG, Str ''Initializing Enhanced Legacy Notif Guard v4...''] s;
           s1 = snd (ensureStub s0)
       in (case wrapLegacyFunctions (w, s1) of (w', s2) \<Rightarrow>
         let s3 = patchQuerySelector s2;
             s4 = setupJoinSessionGuard s3;
             s5 = (if readyState s4 = Loading
                   then s4\<lparr>domContentLoaded_listener := True\<rparr>
                   else setupMutationObserver (snd (ensureStub s4)));
             s6 = s5\<lparr>load_listener := True\<rparr>;
             s7 = s6\<lparr>interval_timer := Some 2000\<rparr>
         in (w', console_log [Str TAG, Str ''Guard initialization complete''] s7)))"

text \<open>
  The browser's side: the events that run what \<open>init\<close> has registered. An event whose
  listener or timer is not registered does nothing.
\<close>

definition fire_DOMContentLoaded :: "page \<Rightarrow> page" where
  "fire_DOMContentLoaded s =
     (let s1 = s\<lparr>readyState := Interactive\<rparr>
      in if domContentLoaded_listener s1 then domContentLoaded_body s1 else s1)"

definition fire_load :: "page \<Rightarrow> page" where
  "fire_load s =
     (let s1 = s\<lparr>readyState := Complete\<rparr>
      in if load_listener s1 then load_body s1 else s1)"

definition interval_tick :: "page \<Rightarrow> page" where
  "interval_tick s = (if interval_timer s \<noteq> None then periodic_check s else s)"

text \<open>
  The page before the script has run: nothing registered, both variables at their
  initial values.
\<close>

definition fresh_page :: "node option \<Rightarrow> ready_state \<Rightarrow> page" where
  "fresh_page doc rs =
     \<lparr>document = doc, readyState = rs, stubEnsured = False, observer = None, console = [],
      domContentLoaded_listener = False, load_listener = False, click_listener = False,
      interval_timer = None, timeouts = [], querySelector_patched = False,
      defineProperty_patched = False\<rparr>"

section \<open>Properties of documents\<close>

text \<open>
  The guarded selector \<open>#home-header2 .container > div\<close> (the script's \<open>SEL\<close>), as
  \<open>document.querySelectorAll\<close> evaluates it: a \<open>div\<close> whose parent has the class
  \<open>container\<close> and lies below an element with the id \<open>home-header2\<close>. In
  \<open>sel_node anc par n\<close>, \<open>anc\<close> tells whether a proper ancestor of \<open>n\<close> has the id and
  \<open>par\<close> whether the parent of \<open>n\<close> is such a container; the result lists the matches
  in the subtree of \<open>n\<close> in document order.
\<close>

fun sel_node :: "bool \<Rightarrow> bool \<Rightarrow> node \<Rightarrow> node list"
  and sel_nodes :: "bool \<Rightarrow> bool \<Rightarrow> node list \<Rightarrow> node list" where
  "sel_node anc par (Text s) = []"
| "sel_node anc par (Element p ks) =
     (if par \<and> has_tag ''div'' p then [Element p ks] else [])
       @ sel_nodes (anc \<or> has_id HEADER_ID p) (anc \<and> has_class ''container'' p) ks"
| "sel_nodes anc par [] = []"
| "sel_nodes anc par (k # ks) = sel_node anc par k @ sel_nodes anc par ks"

definition querySelectorAll_SEL :: "node option \<Rightarrow> node list" where
  "querySelectorAll_SEL doc = (case doc of None \<Rightarrow> [] | Some root \<Rightarrow> sel_node False False root)"

definition querySelector_SEL :: "node option \<Rightarrow> node option" where
  "querySelector_SEL doc = (case querySelectorAll_SEL doc of [] \<Rightarrow> None | m # _ \<Rightarrow> Some m)"

text \<open>
  The vendor code reads \<open>document.querySelector(SEL).lastChild\<close>: the stub is reachable
  when the first match exists and has a last child, and reachable once when it is the
  only match.
\<close>

definition stub_reachable :: "node option \<Rightarrow> bool" where
  "stub_reachable doc =
     (case querySelector_SEL doc of None \<Rightarrow> False | Some m \<Rightarrow> lastChild m \<noteq> None)"

definition stub_reachable_once :: "node option \<Rightarrow> bool" where
  "stub_reachable_once doc =
     (case querySelectorAll_SEL doc of [m] \<Rightarrow> lastChild m \<noteq> None | _ \<Rightarrow> False)"

text \<open>
  The script's own test, not the selector's: the four lookups of \<open>ensureStub\<close> all
  succeed. It takes the first element with the id, the first element of class
  \<open>container\<close> among that header's descendants, the first \<open>div\<close> among that
  container's descendants, and asks whether that div has a last child. When they all
  succeed a call creates nothing, whether or not the selector reaches the div.
\<close>

definition lookups_succeed :: "node option \<Rightarrow> bool" where
  "lookups_succeed doc =
     (case getElementById HEADER_ID doc of
        None \<Rightarrow> False
      | Some header \<Rightarrow>
          (case find_nodes (has_class ''container'') (childNodes header) of
             None \<Rightarrow> False
           | Some container \<Rightarrow>
               (case find_nodes (has_tag ''div'') (childNodes container) of
                  None \<Rightarrow> False
                | Some innerDiv \<Rightarrow> lastChild innerDiv \<noteq> None)))"

fun is_element :: "node \<Rightarrow> bool" where
  "is_element (Element p ks) = True"
| "is_element (Text s) = False"

definition wf_document :: "node option \<Rightarrow> bool" where
  "wf_document doc = (case doc of None \<Rightarrow> True | Some root \<Rightarrow> is_element root)"

text \<open>
  The original lookup on the guarded selector. Other selectors are outside the model:
  this lookup finds nothing for them.
\<close>

definition guarded_lookup :: lookup where
  "guarded_lookup selector doc = Inr (if selector = SEL then querySelector_SEL doc else None)"

text \<open>
  \<open>emb old new\<close>: \<open>new\<close> is \<open>old\<close> with nodes inserted. Every node of \<open>old\<close> is
  found in \<open>new\<close> with the same properties (or text), below the same parent and in the
  same order among its siblings; nothing is removed, moved or altered.
\<close>

fun emb :: "node \<Rightarrow> node \<Rightarrow> bool"
  and embs :: "node list \<Rightarrow> node list \<Rightarrow> bool" where
  "emb (Text s) (Text t) = (s = t)"
| "emb (Element p ks) (Element q js) = (p = q \<and> embs ks js)"
| "emb (Text s) (Element q js) = False"
| "emb (Element p ks) (Text t) = False"
| "embs [] js = True"
| "embs (k # ks) [] = False"
| "embs (k # ks) (j # js) = ((emb k j \<and> embs ks js) \<or> embs (k # ks) js)"

fun node_count :: "node \<Rightarrow> nat"
  and nodes_count :: "node list \<Rightarrow> nat" where
  "node_count (Text s) = 1"
| "node_count (Element p ks) = Suc (nodes_count ks)"
| "nodes_count [] = 0"
| "nodes_count (k # ks) = node_count k + nodes_count ks"

definition emb_doc :: "node option \<Rightarrow> node option \<Rightarrow> bool" where
  "emb_doc old new =
     (case (old, new) of
        (None, None) \<Rightarrow> True
      | (Some a, Some b) \<Rightarrow> emb a b
      | _ \<Rightarrow> False)"

definition doc_count :: "node option \<Rightarrow> nat" where
  "doc_count doc = (case doc of None \<Rightarrow> 0 | Some root \<Rightarrow> node_count root)"

section \<open>Removing a node\<close>

text \<open>
  What another script does when it removes a node: \<open>remove_first P ks\<close> removes, with
  its subtree, the first element among \<open>ks\<close> and their descendants that satisfies \<open>P\<close>;
  that element is \<open>find_nodes P ks\<close>. \<open>count_nodes P ks\<close> counts the elements that
  satisfy \<open>P\<close>.
\<close>

fun remove_first :: "(props \<Rightarrow> bool) \<Rightarrow> node list \<Rightarrow> node list" where
  "remove_first P [] = []"
| "remove_first P (Text t # ks) = Text t # remove_first P ks"
| "remove_first P (Element p cs # ks) =
     (if P p then ks
      else if find_nodes P cs \<noteq> None then Element p (remove_first P cs) # ks
      else Element p cs # remove_first P ks)"

fun count_node :: "(props \<Rightarrow> bool) \<Rightarrow> node \<Rightarrow> nat"
  and count_nodes :: "(props \<Rightarrow> bool) \<Rightarrow> node list \<Rightarrow> nat" where
  "count_node P (Text t) = 0"
| "count_node P (Element p ks) = (if P p then 1 else 0) + count_nodes P ks"
| "count_nodes P [] = 0"
| "count_nodes P (k # ks) = count_node P k + count_nodes P ks"

section \<open>Documents the selector reads one way\<close>

text \<open>
  The selector and the script's lookups can pick different nodes: the selector accepts
  a \<open>div\<close> child of any container below any element with the id, the script follows
  the first element with the id, its first container and that container's first \<open>div\<close>
  at any depth. The following describes, by the shape of the document alone, the
  documents on which there is nothing to choose. \<open>containers_node anc n\<close> counts the
  elements in the subtree of \<open>n\<close> that \<open>#home-header2 .container\<close> matches, and
  \<open>wrapped_node anc par w n\<close> those that \<open>#home-header2 .container > :not(div) div\<close>
  matches: the divs that lie inside a child of a container that is not itself a
  \<open>div\<close>. As in \<open>sel_node\<close>, \<open>anc\<close> tells whether a proper ancestor has the id and
  \<open>par\<close> whether the parent is a container below the id; \<open>w\<close> tells whether some
  ancestor is such a child that is not a \<open>div\<close>.
\<close>

fun containers_node :: "bool \<Rightarrow> node \<Rightarrow> nat"
  and containers_nodes :: "bool \<Rightarrow> node list \<Rightarrow> nat" where
  "containers_node anc (Text s) = 0"
| "containers_node anc (Element p ks) =
     (if anc \<and> has_class ''container'' p then 1 else 0)
       + containers_nodes (anc \<or> has_id HEADER_ID p) ks"
| "containers_nodes anc [] = 0"
| "containers_nodes anc (k # ks) = containers_node anc k + containers_nodes anc ks"

fun wrapped_node :: "bool \<Rightarrow> bool \<Rightarrow> bool \<Rightarrow> node \<Rightarrow> nat"
  and wrapped_nodes :: "bool \<Rightarrow> bool \<Rightarrow> bool \<Rightarrow> node list \<Rightarrow> nat" where
  "wrapped_node anc par w (Text s) = 0"
| "wrapped_node anc par w (Element p ks) =
     (if w \<and> has_tag ''div'' p then 1 else 0)
       + wrapped_nodes (anc \<or> has_id HEADER_ID p) (anc \<and> has_class ''container'' p)
           (w \<or> (par \<and> \<not> has_tag ''div'' p)) ks"
| "wrapped_nodes anc par w [] = 0"
| "wrapped_nodes anc par w (k # ks) = wrapped_node anc par w k + wrapped_nodes anc par w ks"

text \<open>
  A document is unambiguous when at most one element has the id \<open>home-header2\<close>, at
  most one element of class \<open>container\<close> lies below an element with the id, and no
  \<open>div\<close> is wrapped. A document without the header is unambiguous, and so is the
  chain the script builds.
\<close>

definition unambiguous :: "node option \<Rightarrow> bool" where
  "unambiguous doc =
     (case doc of
        None \<Rightarrow> True
      | Some root \<Rightarrow>
          count_node (has_id HEADER_ID) root \<le> 1
          \<and> containers_node False root \<le> 1
          \<and> wrapped_node False False False root = 0)"

text \<open>
  \<open>settled\<close>: an unambiguous document with a document element in which the selector
  matches at most one element.
\<close>

definition settled :: "node option \<Rightarrow> bool" where
  "settled doc =
     (wf_document doc \<and> doc \<noteq> None \<and> unambiguous doc
      \<and> length (querySelectorAll_SEL doc) \<le> 1)"

text \<open>For the proofs: a node that is a \<open>div\<close> element.\<close>

fun is_div :: "node \<Rightarrow> bool" where
  "is_div (Element p ks) = has_tag ''div'' p"
| "is_div (Text s) = False"

section \<open>The page over time\<close>

text \<open>
  The script has no variable for its phase; the phase is read off what it has set up.
  The guard is active once \<open>setupMutationObserver\<close> has created the observer and
  attached it to the body, bootstrapping once \<open>init\<close> has registered the click listener
  and while the \<open>observer\<close> variable is still \<open>null\<close>, and uninitialized before. The
  script's test \<open>if (document.body)\<close> leaves one more situation: the observer created
  when there was no body, attached to nothing, and never attached later, because
  \<open>setupMutationObserver\<close> returns at once when the variable is set.
\<close>

datatype phase = Uninitialized | Bootstrapping | Active | Unattached

definition phase :: "page \<Rightarrow> phase" where
  "phase s =
     (case observer s of
        Some attached \<Rightarrow> if attached then Active else Unattached
      | None \<Rightarrow> if click_listener s then Bootstrapping else Uninitialized)"

text \<open>
  What can happen to the page after \<open>init\<close>: the two document events, a tick of the
  interval timer, a scheduled timeout coming due, a click, a batch of mutation records
  delivered to the observer, and a change of the document by other code. An exception
  in a listener is reported by the browser and does not change the page.
\<close>

datatype event =
    DOMContentLoaded
  | Load
  | Tick
  | Timeout
  | Click click_event
  | Observed "mutation_record list"
  | ExternalMutation "node option"

fun step :: "event \<Rightarrow> page \<Rightarrow> page" where
  "step DOMContentLoaded s = fire_DOMContentLoaded s"
| "step Load s = fire_load s"
| "step Tick s = interval_tick s"
| "step Timeout s =
     (case timeouts s of [] \<Rightarrow> s | t # ts \<Rightarrow> snd (ensureStub (s\<lparr>timeouts := ts\<rparr>)))"
| "step (Click e) s =
     (if click_listener s
      then (case click_listener_body e s of Inr s' \<Rightarrow> s' | Inl err \<Rightarrow> s)
      else s)"
| "step (Observed ms) s = (if observer s = Some True then mutation_callback ms s else s)"
| "step (ExternalMutation d) s = s\<lparr>document := d\<rparr>"

text \<open>What \<open>init\<close> registers, as one predicate.\<close>

definition guards_installed :: "page \<Rightarrow> bool" where
  "guards_installed s =
     (click_listener s \<and> querySelector_patched s \<and> defineProperty_patched s
      \<and> load_listener s \<and> interval_timer s = Some 2000)"

section \<open>The redirect handler and the meeting page\<close>

text \<open>
  The handler of the caregiver page builds the address of the meeting page with the
  browser's \<open>URL\<close> and \<open>URLSearchParams\<close>, and the meeting page reads its parameters
  back with \<open>URLSearchParams\<close>. Both follow the URL Standard's
  \<open>application/x-www-form-urlencoded\<close> format, which works on bytes: a string is
  modelled by the bytes of its UTF-8 encoding.
\<close>

definition is_alnum :: "char \<Rightarrow> bool" where
  "is_alnum c =
     (let n = (of_char c :: nat)
      in (48 \<le> n \<and> n \<le> 57) \<or> (65 \<le> n \<and> n \<le> 90) \<or> (97 \<le> n \<and> n \<le> 122))"

definition hex_digit :: "nat \<Rightarrow> char" where
  "hex_digit n = (if n < 10 then char_of (48 + n) else char_of (55 + n))"

definition percent_encode_byte :: "char \<Rightarrow> string" where
  "percent_encode_byte c =
     [CHR ''%'', hex_digit ((of_char c :: nat) div 16), hex_digit ((of_char c :: nat) mod 16)]"

text \<open>
  The serializer leaves ASCII letters and digits and \<open>* - . _\<close> as they are, writes a
  space as \<open>+\<close> and percent-encodes every other byte.
\<close>

definition urlencode_byte :: "char \<Rightarrow> string" where
  "urlencode_byte c =
     (if c = CHR '' '' then ''+''
      else if is_alnum c \<or> c = CHR ''*'' \<or> c = CHR ''-'' \<or> c = CHR ''.'' \<or> c = CHR ''_''
      then [c]
      else percent_encode_byte c)"

definition urlencode :: "string \<Rightarrow> string" where
  "urlencode s = concat (map urlencode_byte s)"

fun urlencoded_serialize :: "(string \<times> string) list \<Rightarrow> string" where
  "urlencoded_serialize [] = []"
| "urlencoded_serialize [(n, v)] = urlencode n @ ''='' @ urlencode v"
| "urlencoded_serialize ((n, v) # p # ps) =
     urlencode n @ ''='' @ urlencode v @ ''&'' @ urlencoded_serialize (p # ps)"

definition hex_value :: "char \<Rightarrow> nat option" where
  "hex_value c =
     (let n = (of_char c :: nat)
      in if 48 \<le> n \<and> n \<le> 57 then Some (n - 48)
         else if 65 \<le> n \<and> n \<le> 70 then Some (n - 55)
         else if 97 \<le> n \<and> n \<le> 102 then Some (n - 87)
         else None)"

text \<open>
  Percent-decoding: \<open>%\<close> followed by two hexadecimal digits is the byte they denote;
  every other byte, also a \<open>%\<close> not so followed, stands for itself.
\<close>

fun percent_decode :: "string \<Rightarrow> string" where
  "percent_decode [] = []"
| "percent_decode [c] = [c]"
| "percent_decode [c, d] = [c, d]"
| "percent_decode (c # h # l # rest) =
     (if c = CHR ''%'' \<and> hex_value h \<noteq> None \<and> hex_value l \<noteq> None
      then char_of (16 * the (hex_value h) + the (hex_value l)) # percent_decode rest
      else c # percent_decode (h # l # rest))"

definition plus_to_space :: "string \<Rightarrow> string" where
  "plus_to_space s = map (\<lambda>c. if c = CHR ''+'' then CHR '' '' else c) s"

text \<open>Splitting at every occurrence of a byte; the result has at least one piece.\<close>

fun split_on :: "char \<Rightarrow> string \<Rightarrow> string list" where
  "split_on c [] = [[]]"
| "split_on c (x # xs) =
     (if x = c then [] # split_on c xs
      else (case split_on c xs of [] \<Rightarrow> [[x]] | y # ys \<Rightarrow> (x # y) # ys))"

definition parse_pair :: "string \<Rightarrow> string \<times> string" where
  "parse_pair q =
     (let name = takeWhile (\<lambda>c. c \<noteq> CHR ''='') q;
          val = drop 1 (dropWhile (\<lambda>c. c \<noteq> CHR ''='') q)
      in (percent_decode (plus_to_space name), percent_decode (plus_to_space val)))"

definition urlencoded_parse :: "string \<Rightarrow> (string \<times> string) list" where
  "urlencoded_parse s = map parse_pair (filter (\<lambda>q. q \<noteq> []) (split_on CHR ''&'' s))"

text \<open>\<open>new URLSearchParams(query)\<close> for a string: a leading \<open>?\<close> is dropped.\<close>

definition URLSearchParams :: "string \<Rightarrow> (string \<times> string) list" where
  "URLSearchParams query =
     urlencoded_parse (case query of c # cs \<Rightarrow> if c = CHR ''?'' then cs else c # cs | [] \<Rightarrow> [])"

definition searchParams_get :: "string \<Rightarrow> (string \<times> string) list \<Rightarrow> string option" where
  "searchParams_get name ps = map_of ps name"

fun searchParams_set :: "string \<Rightarrow> string \<Rightarrow> (string \<times> string) list \<Rightarrow> (string \<times> string) list" where
  "searchParams_set n v [] = [(n, v)]"
| "searchParams_set n v ((k, x) # ps) =
     (if k = n then (n, v) # filter (\<lambda>p. fst p \<noteq> n) ps
      else (k, x) # searchParams_set n v ps)"

text \<open>
  A URL object, as far as the handler uses it: the origin it was resolved against, its
  path and its search parameters. Its string has a query when the parameters
  serialize to a non-empty string.
\<close>

record url =
  url_origin :: string
  pathname :: string
  searchParams :: "(string \<times> string) list"

definition new_URL :: "string \<Rightarrow> string \<Rightarrow> url" where
  "new_URL path base = \<lparr>url_origin = base, pathname = path, searchParams = []\<rparr>"

definition url_toString :: "url \<Rightarrow> string" where
  "url_toString u =
     url_origin u @ pathname u
       @ (if urlencoded_serialize (searchParams u) = [] then []
          else ''?'' @ urlencoded_serialize (searchParams u))"

text \<open>
  \<open>s.trim() === ''\<close>: the string consists of white space and line terminators only.
  On UTF-8 bytes these are the six ASCII ones, U+00A0 (two bytes) and the three-byte
  ones: U+1680, U+2000 to U+200A, U+2028, U+2029, U+202F, U+205F, U+3000 and U+FEFF.
\<close>

definition ascii_space :: "char \<Rightarrow> bool" where
  "ascii_space c = (let n = (of_char c :: nat) in (9 \<le> n \<and> n \<le> 13) \<or> n = 32)"

definition space3 :: "char \<Rightarrow> char \<Rightarrow> char \<Rightarrow> bool" where
  "space3 c d e =
     (let x = (of_char c :: nat); y = (of_char d :: nat); z = (of_char e :: nat)
      in (x = 0xE1 \<and> y = 0x9A \<and> z = 0x80)
         \<or> (x = 0xE2 \<and> y = 0x80 \<and> ((0x80 \<le> z \<and> z \<le> 0x8A) \<or> z = 0xA8 \<or> z = 0xA9 \<or> z = 0xAF))
         \<or> (x = 0xE2 \<and> y = 0x81 \<and> z = 0x9F)
         \<or> (x = 0xE3 \<and> y = 0x80 \<and> z = 0x80)
         \<or> (x = 0xEF \<and> y = 0xBB \<and> z = 0xBF))"

fun trims_to_empty :: "string \<Rightarrow> bool" where
  "trims_to_empty [] = True"
| "trims_to_empty (c # cs) =
     (if ascii_space c then trims_to_empty cs
      else (case cs of
              [] \<Rightarrow> False
            | d # ds \<Rightarrow>
                if (of_char c :: nat) = 0xC2 \<and> (of_char d :: nat) = 0xA0 then trims_to_empty ds
                else (case ds of [] \<Rightarrow> False | e # es \<Rightarrow> space3 c d e \<and> trims_to_empty es)))"

text \<open>
  \<open>handleJoinSession\<close>: it alerts and returns when the meeting URL is missing or blank;
  otherwise it builds the address of the meeting page and assigns it to
  \<open>window.location.href\<close>. A session id is added when it is given and not empty (the
  script's test is \<open>if (sessionIdParam)\<close>). \<open>None\<close> is \<open>null\<close> or \<open>undefined\<close>. The
  handler's console output is left out.
\<close>

datatype outcome = Redirect string | Alert string

definition handleJoinSession :: "string \<Rightarrow> string option \<Rightarrow> string option \<Rightarrow> outcome" where
  "handleJoinSession origin zoomMeetingUrl sessionIdParam =
     (case zoomMeetingUrl of
        None \<Rightarrow> Alert ''Unable to start meeting: No meeting URL found. Please contact support.''
      | Some u \<Rightarrow>
          if u = [] \<or> trims_to_empty u
          then Alert ''Unable to start meeting: No meeting URL found. Please contact support.''
          else
            (let meetingPageUrl = new_URL ''/meeting'' origin;
                 url1 = meetingPageUrl
                   \<lparr>searchParams := searchParams_set ''meetingUrl'' u (searchParams meetingPageUrl)\<rparr>;
                 url2 = (case sessionIdParam of
                           None \<Rightarrow> url1
                         | Some i \<Rightarrow>
                             if i = [] then url1
                             else url1\<lparr>searchParams := searchParams_set ''sessionId'' i (searchParams url1)\<rparr>)
             in Redirect (url_toString url2)))"

text \<open>
  After the navigation, \<open>window.location.search\<close> of the meeting page: the query of the
  address, from the first \<open>?\<close> to the fragment, empty when there is no query. The URL
  parser percent-encodes the bytes of a query that are controls, not ASCII, or one of
  space, \<open>"\<close>, \<open>#\<close>, \<open><\<close>, \<open>>\<close>, \<open>'\<close>.
\<close>

definition query_encode_byte :: "char \<Rightarrow> string" where
  "query_encode_byte c =
     (let n = (of_char c :: nat)
      in if n \<le> 0x20 \<or> 0x7E < n \<or> c = CHR 0x22 \<or> c = CHR ''#'' \<or> c = CHR ''<''
            \<or> c = CHR ''>'' \<or> c = CHR 0x27
         then percent_encode_byte c else [c])"

definition location_search :: "string \<Rightarrow> string" where
  "location_search address =
     (let q = takeWhile (\<lambda>c. c \<noteq> CHR ''#'') (drop 1 (dropWhile (\<lambda>c. c \<noteq> CHR ''?'') address))
      in if q = [] then [] else ''?'' @ concat (map query_encode_byte q))"

text \<open>The two parameters the meeting page reads: \<open>meetingUrl\<close> and \<open>sessionId\<close>.\<close>

definition meeting_page_params :: "string \<Rightarrow> string option \<times> string option" where
  "meeting_page_params search =
     (let urlParams = URLSearchParams search
      in (searchParams_get ''meetingUrl'' urlParams, searchParams_get ''sessionId'' urlParams))"

section \<open>\<open>ensureStub\<close> as a function of the document\<close>

text \<open>
  For the proofs, the effect of \<open>ensureStub\<close> on the document is described by total
  functions on child lists, and the script's version is shown to compute them without
  raising. \<open>upd_node P g n\<close> rewrites the children of the first match of \<open>P\<close> by \<open>g\<close>.
\<close>

fun upd_node :: "(props \<Rightarrow> bool) \<Rightarrow> (node list \<Rightarrow> node list) \<Rightarrow> node \<Rightarrow> node"
  and upd_nodes :: "(props \<Rightarrow> bool) \<Rightarrow> (node list \<Rightarrow> node list) \<Rightarrow> node list \<Rightarrow> node list" where
  "upd_node P g (Text s) = Text s"
| "upd_node P g (Element p ks) =
     (if P p then Element p (g ks) else Element p (upd_nodes P g ks))"
| "upd_nodes P g [] = []"
| "upd_nodes P g (k # ks) =
     (if find_node P k \<noteq> None then upd_node P g k # ks else k # upd_nodes P g ks)"

definition kids_lastChild :: "node list \<Rightarrow> node list" where
  "kids_lastChild ks = (if ks = [] then [new_stub] else ks)"

definition add_missing :: "(props \<Rightarrow> bool) \<Rightarrow> node \<Rightarrow> node list \<Rightarrow> node list" where
  "add_missing P c ks = (if find_nodes P ks = None then ks @ [c] else ks)"

definition kids_innerDiv :: "node list \<Rightarrow> node list" where
  "kids_innerDiv ks =
     upd_nodes (has_tag ''div'') kids_lastChild (add_missing (has_tag ''div'') new_innerDiv ks)"

definition kids_container :: "node list \<Rightarrow> node list" where
  "kids_container ks =
     upd_nodes (has_class ''container'') kids_innerDiv
       (add_missing (has_class ''container'') new_container ks)"

fun map_kids :: "(node list \<Rightarrow> node list) \<Rightarrow> node \<Rightarrow> node" where
  "map_kids g (Element p ks) = Element p (g ks)"
| "map_kids g (Text s) = Text s"

fun upd_body :: "(node list \<Rightarrow> node list) \<Rightarrow> node list \<Rightarrow> node list" where
  "upd_body g [] = []"
| "upd_body g (k # ks) = (if is_body k then map_kids g k # ks else k # upd_body g ks)"

fun with_header :: "node \<Rightarrow> node" where
  "with_header (Element p ks) =
     (if find_node (has_id HEADER_ID) (Element p ks) \<noteq> None then Element p ks
      else if localName p = ''html'' \<and> find is_body ks \<noteq> None
      then Element p (upd_body ((#) new_header) ks)
      else Element p (ks @ [new_header]))"
| "with_header (Text s) = Text s"

definition ensured_root :: "node \<Rightarrow> node" where
  "ensured_root root = upd_node (has_id HEADER_ID) kids_container (with_header root)"

definition ensured :: "node option \<Rightarrow> node option" where
  "ensured doc = map_option ensured_root doc"

definition success_log :: "log_entry" where
  "success_log = (Log, [Str TAG, Str ''Stub structure verified/created successfully''])"

definition creating_log :: "log_entry" where
  "creating_log = (Log, [Str TAG, Str ''Creating stub header element''])"

text \<open>
  How often an entry occurs in the console. Every completed call of \<open>ensureStub\<close>
  leaves one \<open>success_log\<close> entry and nothing else in the script writes that entry,
  so its count is the number of completed calls.
\<close>

definition count_log :: "log_entry \<Rightarrow> page \<Rightarrow> nat" where
  "count_log e s = length (filter (\<lambda>x. x = e) (console s))"

definition full_header :: node where
  "full_header = upd_node (has_id HEADER_ID) kids_container new_header"

definition full_innerDiv :: node where
  "full_innerDiv = upd_node (has_tag ''div'') kids_lastChild new_innerDiv"

subsection \<open>The bytes the serializer writes\<close>

definition urlencoded_out :: "char \<Rightarrow> bool" where
  "urlencoded_out c =
     (is_alnum c \<or> c = CHR ''*'' \<or> c = CHR ''-'' \<or> c = CHR ''.'' \<or> c = CHR ''_''
      \<or> c = CHR ''+'' \<or> c = CHR ''%'')"

section \<open>Sample documents\<close>

text \<open>An element with a tag and children and nothing else set.\<close>

definition elem :: "string \<Rightarrow> node list \<Rightarrow> node" where
  "elem t ks = Element \<lparr>localName = t, elem_id = [], className = [], cssText = [], attributes = []\<rparr> ks"

definition cold_document :: "node option" where
  "cold_document = Some (elem ''html'' [elem ''head'' []])"

definition plain_document :: "node option" where
  "plain_document = Some (elem ''html'' [elem ''head'' [], elem ''body'' [Text ''hello'']])"

text \<open>A header whose container already holds two divs, each with content.\<close>

definition two_divs_document :: "node option" where
  "two_divs_document =
     Some (elem ''html''
       [elem ''head'' [],
        elem ''body''
          [set_id ''home-header2'' (elem ''header''
             [set_className ''container'' (elem ''div''
                [elem ''div'' [Text ''one''], elem ''div'' [Text ''two'']])])]])"

text \<open>
  A header whose container holds its only div one level further down, inside a
  \<open>nav\<close> element.
\<close>

definition nested_div_document :: "node option" where
  "nested_div_document =
     Some (elem ''html''
       [elem ''head'' [],
        elem ''body''
          [set_id ''home-header2'' (elem ''header''
             [set_className ''container'' (elem ''div''
                [elem ''nav'' [elem ''div'' [Text ''menu'']]])])]])"

text \<open>
  A header with two containers: the first holds no \<open>div\<close>, the second holds one, with
  content.
\<close>

definition two_containers_document :: "node option" where
  "two_containers_document =
     Some (elem ''html''
       [elem ''head'' [],
        elem ''body''
          [set_id ''home-header2'' (elem ''header''
             [set_className ''container'' (elem ''section'' [elem ''span'' []]),
              set_className ''container'' (elem ''div'' [elem ''div'' [Text ''x'']])])]])"

text \<open>A button, and a span inside a button, both reading "Join session".\<close>

definition join_button :: node where
  "join_button = elem ''button'' [Text ''Join session'']"

definition join_span :: node where
  "join_span = elem ''span'' [Text ''Join session'']"

definition join_page :: page where
  "join_page =
     fresh_page
       (Some (elem ''html'' [elem ''head'' [], elem ''body'' [elem ''button'' [join_span]]]))
       Complete"

text \<open>
  The plain document after a first call, and that page after another script has
  removed the header, the container, the inner div or the marker.
\<close>

definition stubbed_page :: page where
  "stubbed_page = snd (ensureStub (fresh_page plain_document Complete))"

fun root_children :: "node option \<Rightarrow> node list" where
  "root_children (Some (Element p ks)) = ks"
| "root_children _ = []"

fun remove_in_document :: "(props \<Rightarrow> bool) \<Rightarrow> node option \<Rightarrow> node option" where
  "remove_in_document P (Some (Element p ks)) = Some (Element p (remove_first P ks))"
| "remove_in_document P doc = doc"

definition without :: "(props \<Rightarrow> bool) \<Rightarrow> page" where
  "without P = stubbed_page\<lparr>document := remove_in_document P (document stubbed_page)\<rparr>"

definition removal_record :: "(props \<Rightarrow> bool) \<Rightarrow> mutation_record" where
  "removal_record P =
     \<lparr>mtype = ChildList,
      removedNodes = (case find_nodes P (root_children (document stubbed_page)) of
                        None \<Rightarrow> [] | Some n \<Rightarrow> [n])\<rparr>"

definition is_innerDiv :: "props \<Rightarrow> bool" where
  "is_innerDiv p = (localName p = ''div'' \<and> elem_id p = [] \<and> className p = [])"

text \<open>The page after \<open>init\<close> on a document that is still loading.\<close>

definition loading_page :: page where
  "loading_page = snd (init (Map.empty, fresh_page cold_document Loading))"

text \<open>
  A legacy function that throws, one that returns its first argument, and a window that
  defines both under guarded names.
\<close>

definition throwing_function :: js_function where
  "throwing_function = (\<lambda>this args s. (Inl (Str ''lastChild of null''), s))"

definition returning_function :: js_function where
  "returning_function =
     (\<lambda>this args s. (Inr (case args of [] \<Rightarrow> Undefined | a # _ \<Rightarrow> a), s))"

definition legacy_window :: window where
  "legacy_window =
     [''updateTabletBadge'' \<mapsto> Function throwing_function,
      ''refreshNotifications'' \<mapsto> Function returning_function]"

text \<open>A meeting URL with a space, a query and a fragment.\<close>

definition sample_meeting :: string where
  "sample_meeting = ''https://us02web.zoom.us/j/814 55?pwd=a+b&x=%41#top''"

definition address_of :: "outcome \<Rightarrow> string" where
  "address_of r = (case r of Redirect a \<Rightarrow> a | Alert m \<Rightarrow> [])"

section \<open>Calls between removals\<close>

text \<open>
  Calls of \<open>ensureStub\<close> interleaved with what other scripts do to the document when
  they remove a node from it: \<open>run\<close> performs a list of such actions in order.
\<close>

datatype action = Call | Removal "props \<Rightarrow> bool"

fun run :: "action list \<Rightarrow> page \<Rightarrow> page" where
  "run [] s = s"
| "run (Call # as) s = run as (snd (ensureStub s))"
| "run (Removal P # as) s = run as (s\<lparr>document := remove_in_document P (document s)\<rparr>)"

section \<open>Lemmas\<close>

subsection \<open>The script computes the description\<close>

lemma update_pure:
  assumes "\<And>p ks. P p \<Longrightarrow> f (Element p ks) = Inr (Element p (g ks))"
  shows "update_node P f n = Inr (upd_node P g n)"
    and "update_nodes P f ns = Inr (upd_nodes P g ns)"
  using assms by (induction P f n and P f ns rule: update_node_update_nodes.induct) auto

lemma ensure_lastChild_pure:
  "ensure_lastChild (Element p ks) = Inr (Element p (kids_lastChild ks))"
  by (simp add: ensure_lastChild_def lastChild_def kids_lastChild_def)

lemma ensure_innerDiv_pure:
  "ensure_innerDiv (Element p ks) = Inr (Element p (kids_innerDiv ks))"
  by (simp add: ensure_innerDiv_def kids_innerDiv_def add_missing_def
      update_pure(2)[where g = kids_lastChild] ensure_lastChild_pure)

lemma ensure_container_pure:
  "ensure_container (Element p ks) = Inr (Element p (kids_container ks))"
  by (simp add: ensure_container_def kids_container_def add_missing_def
      update_pure(2)[where g = kids_innerDiv] ensure_innerDiv_pure)

lemma update_body_pure:
  assumes "\<And>p ks. f (Element p ks) = Inr (Element p (g ks))"
  shows "update_body f ns = Inr (upd_body g ns)"
proof (induction ns)
  case Nil
  then show ?case by simp
next
  case (Cons k ns)
  then show ?case using assms by (cases k) auto
qed

lemma new_header_shape:
  "\<exists>p. new_header = Element p [] \<and> has_id HEADER_ID p"
  by (simp add: new_header_def createElement_def has_id_def)

lemma new_container_shape:
  "\<exists>p. new_container = Element p [] \<and> has_class ''container'' p \<and> \<not> has_id HEADER_ID p
       \<and> has_tag ''div'' p"
  by (simp add: new_container_def createElement_def has_id_def has_class_def classList_def
      HEADER_ID_def has_tag_def is_ws_def)

lemma new_innerDiv_shape:
  "\<exists>p. new_innerDiv = Element p [] \<and> has_tag ''div'' p \<and> \<not> has_class ''container'' p
       \<and> \<not> has_id HEADER_ID p"
  by (simp add: new_innerDiv_def createElement_def has_id_def has_class_def classList_def
      HEADER_ID_def has_tag_def)

lemma new_stub_shape:
  "\<exists>p. new_stub = Element p [] \<and> \<not> has_tag ''div'' p \<and> \<not> has_class ''container'' p
       \<and> \<not> has_id HEADER_ID p"
  by (simp add: new_stub_def createElement_def has_id_def has_class_def classList_def
      HEADER_ID_def has_tag_def is_ws_def)

lemma find_upd_body_new_header:
  "find is_body ks \<noteq> None \<Longrightarrow> find_nodes (has_id HEADER_ID) (upd_body ((#) new_header) ks) \<noteq> None"
proof -
  obtain hp where hp: "new_header = Element hp []" "has_id HEADER_ID hp"
    using new_header_shape by blast
  show "find is_body ks \<noteq> None \<Longrightarrow> ?thesis"
  proof (induction ks)
    case Nil
    then show ?case by simp
  next
    case (Cons k ks)
    then show ?case
      by (cases k) (auto simp: hp split: option.splits)
  qed
qed

lemma find_nodes_append:
  "find_nodes P (ks @ js) = (case find_nodes P ks of Some r \<Rightarrow> Some r | None \<Rightarrow> find_nodes P js)"
  by (induction ks) (auto split: option.splits)

lemma find_with_header:
  "is_element root \<Longrightarrow> find_node (has_id HEADER_ID) (with_header root) \<noteq> None"
proof -
  obtain hp where hp: "new_header = Element hp []" "has_id HEADER_ID hp"
    using new_header_shape by blast
  show "is_element root \<Longrightarrow> ?thesis"
    using find_upd_body_new_header
    by (cases root) (auto simp: find_nodes_append hp split: option.splits)
qed

lemma insert_header_pure:
  assumes "find_node (has_id HEADER_ID) (Element p ks) = None"
  shows "insert_header (Some (Element p ks)) = Inr (Some (with_header (Element p ks)))"
  using assms
  by (auto simp: insert_header_def document_body_def
        update_body_pure[where g = "(#) new_header"])

lemma update_header_pure:
  "update_node (has_id HEADER_ID) ensure_container n
     = Inr (upd_node (has_id HEADER_ID) kids_container n)"
  by (rule update_pure(1)) (rule ensure_container_pure)

lemma ensureStub_try_found:
  assumes "document s = Some root" "find_node (has_id HEADER_ID) root \<noteq> None"
  shows "ensureStub_try s =
     Inr (s\<lparr>document := Some (ensured_root root), stubEnsured := True,
            console := console s @ [success_log]\<rparr>)"
proof -
  from assms(2) have "is_element root" by (cases root) auto
  then have "with_header root = root" using assms(2) by (cases root) auto
  then show ?thesis using assms
    by (simp add: ensureStub_try_def getElementById_def update_header_pure ensured_root_def
        console_log_def success_log_def)
qed

lemma ensureStub_try_inserted:
  assumes "document s = Some (Element p ks)" "find_node (has_id HEADER_ID) (Element p ks) = None"
  shows "ensureStub_try s =
     Inr (s\<lparr>document := Some (ensured_root (Element p ks)), stubEnsured := True,
            console := console s @ [creating_log, success_log]\<rparr>)"
  using assms
  by (simp add: ensureStub_try_def getElementById_def update_header_pure ensured_root_def
        console_log_def success_log_def creating_log_def insert_header_pure
        del: with_header.simps)

lemma ensureStub_try_no_root:
  assumes "document s = None"
  shows "ensureStub_try s =
     Inr (s\<lparr>stubEnsured := True, console := console s @ [creating_log, success_log]\<rparr>)"
proof -
  obtain hp where hp: "new_header = Element hp []" using new_header_shape by blast
  show ?thesis using assms
    by (simp add: ensureStub_try_def getElementById_def insert_header_def document_body_def
        console_log_def success_log_def creating_log_def hp ensure_container_pure)
qed

lemma ensureStub_try_text_root:
  assumes "document s = Some (Text t)"
  shows "ensureStub_try s = Inl HierarchyRequestError"
  using assms
  by (simp add: ensureStub_try_def getElementById_def insert_header_def document_body_def
        console_log_def)

subsection \<open>Updates and lookups\<close>

lemma find_upd:
  "(find_node P (upd_node P g n) = None) = (find_node P n = None)"
  "(find_nodes P (upd_nodes P g ns) = None) = (find_nodes P ns = None)"
  by (induction P g n and P g ns rule: upd_node_upd_nodes.induct)
     (auto split: option.splits)

lemma upd_upd:
  "upd_node P g (upd_node P h n) = upd_node P (g \<circ> h) n"
  "upd_nodes P g (upd_nodes P h ns) = upd_nodes P (g \<circ> h) ns"
  by (induction P h n and P h ns rule: upd_node_upd_nodes.induct)
     (auto simp: find_upd)

lemma upd_idem:
  assumes "\<And>ks. g (g ks) = g ks"
  shows "upd_node P g (upd_node P g n) = upd_node P g n"
    and "upd_nodes P g (upd_nodes P g ns) = upd_nodes P g ns"
proof -
  have "g \<circ> g = g" using assms by (simp add: fun_eq_iff)
  then show "upd_node P g (upd_node P g n) = upd_node P g n"
    and "upd_nodes P g (upd_nodes P g ns) = upd_nodes P g ns"
    by (simp_all add: upd_upd)
qed

lemma add_missing_found:
  assumes "\<exists>p. c = Element p cs \<and> P p"
  shows "find_nodes P (add_missing P c ks) \<noteq> None"
  using assms by (auto simp: add_missing_def find_nodes_append)

lemma add_missing_fix:
  "find_nodes P ks \<noteq> None \<Longrightarrow> add_missing P c ks = ks"
  by (simp add: add_missing_def)

lemma ensure_level_idem:
  assumes c: "\<exists>p. c = Element p cs \<and> P p" and g: "\<And>ks. g (g ks) = g ks"
  shows "upd_nodes P g (add_missing P c (upd_nodes P g (add_missing P c ks)))
         = upd_nodes P g (add_missing P c ks)"
proof -
  have "find_nodes P (upd_nodes P g (add_missing P c ks)) \<noteq> None"
    using add_missing_found[OF c] by (simp add: find_upd)
  then have "add_missing P c (upd_nodes P g (add_missing P c ks))
      = upd_nodes P g (add_missing P c ks)"
    by (rule add_missing_fix)
  moreover have "upd_nodes P g (upd_nodes P g (add_missing P c ks))
      = upd_nodes P g (add_missing P c ks)"
    using g by (rule upd_idem(2))
  ultimately show ?thesis by simp
qed

lemma kids_lastChild_idem: "kids_lastChild (kids_lastChild ks) = kids_lastChild ks"
  by (simp add: kids_lastChild_def)

lemma kids_innerDiv_idem: "kids_innerDiv (kids_innerDiv ks) = kids_innerDiv ks"
  unfolding kids_innerDiv_def
  using new_innerDiv_shape kids_lastChild_idem
  by (intro ensure_level_idem[where cs = "[]" and g = kids_lastChild]) blast+

lemma kids_container_idem: "kids_container (kids_container ks) = kids_container ks"
  unfolding kids_container_def
  using new_container_shape kids_innerDiv_idem
  by (intro ensure_level_idem[where cs = "[]" and g = kids_innerDiv]) blast+

lemma with_header_fix:
  "find_node (has_id HEADER_ID) root \<noteq> None \<Longrightarrow> with_header root = root"
  by (cases root) auto

lemma ensured_root_idem: "ensured_root (ensured_root root) = ensured_root root"
proof (cases root)
  case (Text t)
  then show ?thesis by (simp add: ensured_root_def)
next
  case (Element p ks)
  then have "find_node (has_id HEADER_ID) (ensured_root root) \<noteq> None"
    using find_with_header[of root] by (simp add: ensured_root_def find_upd del: with_header.simps)
  then have "with_header (ensured_root root) = ensured_root root"
    by (rule with_header_fix)
  then have "ensured_root (ensured_root root)
      = upd_node (has_id HEADER_ID) kids_container (ensured_root root)"
    by (simp add: ensured_root_def)
  also have "\<dots> = ensured_root root"
    unfolding ensured_root_def
    using kids_container_idem by (rule upd_idem(1)[where g = kids_container])
  finally show ?thesis .
qed

lemma ensured_idem: "ensured (ensured doc) = ensured doc"
  by (cases doc) (simp_all add: ensured_def ensured_root_idem)

subsection \<open>Only insertions\<close>

lemma emb_refl: "emb n n" "embs ns ns"
  by (induction n and ns rule: node_count_nodes_count.induct) auto

lemma embs_append_right: "embs ks js \<Longrightarrow> embs ks (js @ extra)"
proof (induction js arbitrary: ks)
  case Nil
  then show ?case by (cases ks) auto
next
  case (Cons j js)
  then show ?case by (cases ks) auto
qed

lemma embs_Cons_right: "embs ks js \<Longrightarrow> embs ks (j # js)"
  by (cases ks) auto

lemma embs_prefix: "embs ks (ks @ extra)"
  by (rule embs_append_right) (rule emb_refl)

lemma embs_same_prefix: "embs ks js \<Longrightarrow> embs (pre @ ks) (pre @ js)"
  by (induction pre) (auto simp: emb_refl)

lemma emb_upd:
  assumes "\<And>ks. embs ks (g ks)"
  shows "emb n (upd_node P g n)" and "embs ns (upd_nodes P g ns)"
  using assms
  by (induction P g n and P g ns rule: upd_node_upd_nodes.induct) (auto simp: emb_refl)

lemma upd_nodes_append_nomatch:
  "find_nodes P ks = None \<Longrightarrow> upd_nodes P g (ks @ js) = ks @ upd_nodes P g js"
  by (induction ks) (auto split: option.splits)

lemma emb_ensure_level:
  assumes "\<And>ks. embs ks (g ks)"
  shows "embs ks (upd_nodes P g (add_missing P c ks))"
proof (cases "find_nodes P ks = None")
  case True
  then show ?thesis
    by (simp add: add_missing_def upd_nodes_append_nomatch embs_prefix)
next
  case False
  then have "add_missing P c ks = ks" by (rule add_missing_fix)
  then show ?thesis using emb_upd(2)[where g = g, OF assms] by simp
qed

lemma emb_kids_lastChild: "embs ks (kids_lastChild ks)"
  by (simp add: kids_lastChild_def emb_refl)

lemma emb_kids_innerDiv: "embs ks (kids_innerDiv ks)"
  unfolding kids_innerDiv_def
  using emb_kids_lastChild by (rule emb_ensure_level[where g = kids_lastChild])

lemma emb_kids_container: "embs ks (kids_container ks)"
  unfolding kids_container_def
  using emb_kids_innerDiv by (rule emb_ensure_level[where g = kids_innerDiv])

lemma embs_upd_body:
  assumes "\<And>ks. embs ks (g ks)"
  shows "embs ns (upd_body g ns)"
proof (induction ns)
  case Nil
  then show ?case by simp
next
  case (Cons k ns)
  then show ?case using assms by (cases k) (auto simp: emb_refl)
qed

lemma emb_with_header: "emb root (with_header root)"
  by (cases root) (auto simp: emb_refl embs_prefix embs_upd_body embs_Cons_right)

lemma emb_trans:
  "emb a b \<Longrightarrow> emb b c \<Longrightarrow> emb a c"
  "embs as bs \<Longrightarrow> embs bs cs \<Longrightarrow> embs as cs"
proof (induction c and cs arbitrary: a b and as bs rule: node_count_nodes_count.induct)
  case (1 s)
  then show ?case by (cases a; cases b) auto
next
  case (2 p ks)
  then show ?case by (cases a; cases b) auto
next
  case 3
  then show ?case by (cases as; cases bs) auto
next
  case (4 k ks)
  show ?case
  proof (cases as)
    case Nil
    then show ?thesis by simp
  next
    case as: (Cons a' as')
    show ?thesis
    proof (cases bs)
      case Nil
      then show ?thesis using "4.prems" as by simp
    next
      case bs: (Cons b' bs')
      from "4.prems"(2) bs consider
        (here) "emb b' k" "embs bs' ks" | (later) "embs (b' # bs') ks"
        by auto
      then show ?thesis
      proof cases
        case later
        then have "embs as ks" using "4.IH"(2) "4.prems"(1) bs by blast
        then show ?thesis by (simp add: as)
      next
        case here
        from "4.prems"(1) as bs consider
          (h) "emb a' b'" "embs as' bs'" | (l) "embs (a' # as') bs'"
          by auto
        then show ?thesis
        proof cases
          case h
          then have "emb a' k" "embs as' ks"
            using here "4.IH" by blast+
          then show ?thesis by (simp add: as)
        next
          case l
          then have "embs (a' # as') ks" using here(2) "4.IH"(2) by blast
          then show ?thesis by (simp add: as)
        qed
      qed
    qed
  qed
qed

lemma emb_ensured_root: "emb root (ensured_root root)"
proof -
  have "emb (with_header root) (ensured_root root)"
    unfolding ensured_root_def
    using emb_kids_container by (rule emb_upd(1)[where g = kids_container])
  with emb_with_header show ?thesis by (rule emb_trans(1))
qed

lemma node_count_append: "nodes_count (ks @ js) = nodes_count ks + nodes_count js"
  by (induction ks) auto

lemma count_upd:
  assumes "\<And>ks. nodes_count (g ks) \<le> nodes_count ks + d"
  shows "node_count (upd_node P g n) \<le> node_count n + d"
    and "nodes_count (upd_nodes P g ns) \<le> nodes_count ns + d"
  using assms
proof (induction P g n and P g ns rule: upd_node_upd_nodes.induct)
  case (4 P g k ks)
  then show ?case by (auto simp: add.commute add.left_commute intro: add_le_mono)
qed auto

subsection \<open>A fresh header\<close>

lemma sel_no_header:
  "find_node (has_id HEADER_ID) n = None \<Longrightarrow> sel_node False False n = []"
  "find_nodes (has_id HEADER_ID) ns = None \<Longrightarrow> sel_nodes False False ns = []"
  by (induction "has_id HEADER_ID" n and "has_id HEADER_ID" ns rule: find_node_find_nodes.induct)
     (auto split: option.splits if_splits)

lemma sel_nodes_append: "sel_nodes a b (ks @ js) = sel_nodes a b ks @ sel_nodes a b js"
  by (induction ks) auto

lemma full_innerDiv_lastChild: "lastChild full_innerDiv = Some new_stub"
proof -
  obtain dp where dp: "new_innerDiv = Element dp []" "has_tag ''div'' dp"
    using new_innerDiv_shape by blast
  show ?thesis
    by (simp add: full_innerDiv_def lastChild_def kids_lastChild_def dp)
qed

lemma sel_full_header: "sel_node False False full_header = [full_innerDiv]"
proof -
  obtain hp where hp: "new_header = Element hp []" "has_id HEADER_ID hp"
    using new_header_shape by blast
  obtain cp where cp: "new_container = Element cp []" "has_class ''container'' cp"
    using new_container_shape by blast
  obtain dp where dp: "new_innerDiv = Element dp []" "has_tag ''div'' dp"
    using new_innerDiv_shape by blast
  obtain sp where sp: "new_stub = Element sp []" "\<not> has_tag ''div'' sp"
    using new_stub_shape by blast
  have "kids_container [] = [Element cp [Element dp [Element sp []]]]"
    by (simp add: kids_container_def kids_innerDiv_def kids_lastChild_def add_missing_def
        cp dp sp)
  then show ?thesis
    by (simp add: full_header_def full_innerDiv_def hp cp dp sp kids_lastChild_def)
qed

lemma node_count_full_header: "node_count full_header = 4"
proof -
  obtain hp where hp: "new_header = Element hp []" "has_id HEADER_ID hp"
    using new_header_shape by blast
  obtain cp where cp: "new_container = Element cp []" "has_class ''container'' cp"
    using new_container_shape by blast
  obtain dp where dp: "new_innerDiv = Element dp []" "has_tag ''div'' dp"
    using new_innerDiv_shape by blast
  obtain sp where sp: "new_stub = Element sp []" "\<not> has_tag ''div'' sp"
    using new_stub_shape by blast
  have "kids_container [] = [Element cp [Element dp [Element sp []]]]"
    by (simp add: kids_container_def kids_innerDiv_def kids_lastChild_def add_missing_def
        cp dp sp)
  then show ?thesis
    by (simp add: full_header_def hp)
qed

lemma upd_new_header_body:
  "find_nodes (has_id HEADER_ID) ks = None \<Longrightarrow>
   upd_nodes (has_id HEADER_ID) kids_container (upd_body ((#) new_header) ks)
     = upd_body ((#) full_header) ks"
proof -
  obtain hp where hp: "new_header = Element hp []" "has_id HEADER_ID hp"
    using new_header_shape by blast
  show "find_nodes (has_id HEADER_ID) ks = None \<Longrightarrow> ?thesis"
  proof (induction ks)
    case Nil
    then show ?case by simp
  next
    case (Cons k ks)
    then show ?case
      by (cases k) (auto simp: hp full_header_def split: option.splits if_splits)
  qed
qed

lemma sel_upd_body_full_header:
  "find_nodes (has_id HEADER_ID) ks = None \<Longrightarrow> find is_body ks \<noteq> None \<Longrightarrow>
   sel_nodes False False (upd_body ((#) full_header) ks) = [full_innerDiv]"
proof (induction ks)
  case Nil
  then show ?case by simp
next
  case (Cons k ks)
  then show ?case
    by (cases k)
       (auto simp: sel_full_header sel_no_header split: option.splits if_splits)
qed

lemma ensured_root_fresh:
  assumes "find_node (has_id HEADER_ID) (Element p ks) = None"
  shows "ensured_root (Element p ks) =
     Element p (if localName p = ''html'' \<and> find is_body ks \<noteq> None
                then upd_body ((#) full_header) ks else ks @ [full_header])"
proof -
  from assms have nh: "\<not> has_id HEADER_ID p" "find_nodes (has_id HEADER_ID) ks = None"
    by (auto split: if_splits)
  show ?thesis
  proof (cases "localName p = ''html'' \<and> find is_body ks \<noteq> None")
    case True
    then show ?thesis using nh
      by (simp add: ensured_root_def upd_new_header_body)
  next
    case False
    obtain hp where hp: "new_header = Element hp []" "has_id HEADER_ID hp"
      using new_header_shape by blast
    have "find_node (has_id HEADER_ID) new_header \<noteq> None"
      by (simp add: hp)
    then have "upd_nodes (has_id HEADER_ID) kids_container (ks @ [new_header])
        = ks @ [full_header]"
      using nh by (simp add: upd_nodes_append_nomatch full_header_def)
    then show ?thesis using False nh
      by (auto simp: ensured_root_def)
  qed
qed

lemma sel_ensured_root_fresh:
  assumes "find_node (has_id HEADER_ID) (Element p ks) = None"
  shows "sel_node False False (ensured_root (Element p ks)) = [full_innerDiv]"
proof -
  from assms have nh: "\<not> has_id HEADER_ID p" "find_nodes (has_id HEADER_ID) ks = None"
    by (auto split: if_splits)
  show ?thesis
    using nh
    by (simp add: ensured_root_fresh[OF assms] sel_upd_body_full_header sel_nodes_append
        sel_no_header sel_full_header)
qed

lemma nodes_count_upd_body_Cons:
  "find is_body ks \<noteq> None \<Longrightarrow>
   nodes_count (upd_body ((#) c) ks) = nodes_count ks + node_count c"
proof (induction ks)
  case Nil
  then show ?case by simp
next
  case (Cons k ks)
  then show ?case by (cases k) auto
qed

lemma node_count_ensured_root_fresh:
  assumes "find_node (has_id HEADER_ID) (Element p ks) = None"
  shows "node_count (ensured_root (Element p ks)) = node_count (Element p ks) + 4"
  by (simp add: ensured_root_fresh[OF assms] nodes_count_upd_body_Cons node_count_append
      node_count_full_header)

subsection \<open>The chain as the script checks it\<close>

lemma find_upd_val:
  "find_node P (upd_node P g n) = map_option (map_kids g) (find_node P n)"
  "find_nodes P (upd_nodes P g ns) = map_option (map_kids g) (find_nodes P ns)"
  by (induction P g n and P g ns rule: upd_node_upd_nodes.induct)
     (auto split: option.splits)

lemma find_is_element:
  "find_node P n = Some m \<Longrightarrow> is_element m"
  "find_nodes P ns = Some m \<Longrightarrow> is_element m"
  by (induction P n and P ns rule: find_node_find_nodes.induct)
     (auto split: option.splits if_splits)

lemma level_found:
  assumes "\<exists>p. c = Element p cs \<and> P p"
  shows "\<exists>m. find_nodes P (upd_nodes P g (add_missing P c ks)) = Some (map_kids g m)
           \<and> is_element m"
proof -
  obtain m where m: "find_nodes P (add_missing P c ks) = Some m"
    using add_missing_found[OF assms] by blast
  then have "is_element m" by (rule find_is_element(2))
  with m show ?thesis by (auto simp: find_upd_val)
qed

lemma lookups_succeed_ensured_root:
  assumes "is_element root"
  shows "lookups_succeed (Some (ensured_root root))"
proof -
  obtain h where h: "find_node (has_id HEADER_ID) (with_header root) = Some h"
    using find_with_header[OF assms] by blast
  then obtain hp hks where hh: "h = Element hp hks"
    using find_is_element(1)[OF h] by (cases h) auto
  have 1: "getElementById HEADER_ID (Some (ensured_root root)) = Some (Element hp (kids_container hks))"
    by (simp add: getElementById_def ensured_root_def find_upd_val h hh)
  obtain c where c: "find_nodes (has_class ''container'') (kids_container hks)
      = Some (map_kids kids_innerDiv c)" "is_element c"
    unfolding kids_container_def
    using level_found[where cs = "[]" and g = kids_innerDiv] new_container_shape by blast
  then obtain cp cks where cc: "c = Element cp cks" by (cases c) auto
  obtain d where d: "find_nodes (has_tag ''div'') (kids_innerDiv cks)
      = Some (map_kids kids_lastChild d)" "is_element d"
    unfolding kids_innerDiv_def
    using level_found[where cs = "[]" and g = kids_lastChild] new_innerDiv_shape by blast
  then obtain dp dks where dd: "d = Element dp dks" by (cases d) auto
  show ?thesis
    by (simp add: lookups_succeed_def 1 c cc d dd lastChild_def kids_lastChild_def)
qed

lemma upd_fix:
  "find_node P n = Some m \<Longrightarrow> g (childNodes m) = childNodes m \<Longrightarrow> upd_node P g n = n"
  "find_nodes P ns = Some m \<Longrightarrow> g (childNodes m) = childNodes m \<Longrightarrow> upd_nodes P g ns = ns"
  by (induction P g n and P g ns rule: upd_node_upd_nodes.induct)
     (auto split: option.splits if_splits)

lemma level_fix:
  assumes "find_nodes P ks = Some m" "g (childNodes m) = childNodes m"
  shows "upd_nodes P g (add_missing P c ks) = ks"
  using assms by (simp add: add_missing_def upd_fix(2)[where m = m])

lemma lookups_succeed_fix:
  assumes "lookups_succeed (Some root)"
  shows "ensured_root root = root"
proof -
  from assms obtain h c d where
    h: "find_node (has_id HEADER_ID) root = Some h" and
    c: "find_nodes (has_class ''container'') (childNodes h) = Some c" and
    d: "find_nodes (has_tag ''div'') (childNodes c) = Some d" and
    l: "childNodes d \<noteq> []"
    by (auto simp: lookups_succeed_def getElementById_def lastChild_def
        split: option.splits if_splits)
  have "kids_lastChild (childNodes d) = childNodes d"
    using l by (simp add: kids_lastChild_def)
  then have "kids_innerDiv (childNodes c) = childNodes c"
    unfolding kids_innerDiv_def using d by (intro level_fix[where m = d])
  then have "kids_container (childNodes h) = childNodes h"
    unfolding kids_container_def using c by (intro level_fix[where m = c])
  moreover have "with_header root = root"
    using h by (intro with_header_fix) simp
  ultimately show ?thesis
    using h by (simp add: ensured_root_def upd_fix(1)[where m = h])
qed

subsection \<open>The document after \<open>ensureStub\<close>\<close>

lemma ensureStub_document: "document (snd (ensureStub s)) = ensured (document s)"
proof (cases "document s")
  case None
  then show ?thesis
    by (simp add: ensureStub_def ensureStub_try_no_root ensured_def)
next
  case (Some root)
  show ?thesis
  proof (cases root)
    case (Text t)
    then show ?thesis using Some
      by (simp add: ensureStub_def ensureStub_try_text_root ensured_def ensured_root_def
          console_warn_def)
  next
    case (Element p ks)
    show ?thesis
    proof (cases "find_node (has_id HEADER_ID) root = None")
      case True
      then show ?thesis using Some Element
        by (simp add: ensureStub_def ensureStub_try_inserted ensured_def)
    next
      case False
      then show ?thesis using Some
        by (simp add: ensureStub_def ensureStub_try_found ensured_def)
    qed
  qed
qed

lemma ensureStub_try_total:
  assumes "wf_document (document s)"
  shows "\<exists>s'. ensureStub_try s = Inr s' \<and> stubEnsured s'"
proof (cases "document s")
  case None
  then show ?thesis by (simp add: ensureStub_try_no_root)
next
  case (Some root)
  with assms obtain p ks where root: "root = Element p ks"
    by (cases root) (auto simp: wf_document_def)
  show ?thesis
  proof (cases "find_node (has_id HEADER_ID) root = None")
    case True
    then show ?thesis using Some root by (simp add: ensureStub_try_inserted)
  next
    case False
    then show ?thesis using Some by (simp add: ensureStub_try_found)
  qed
qed

lemma ensureStub_true:
  "wf_document (document s) \<Longrightarrow> fst (ensureStub s) \<and> stubEnsured (snd (ensureStub s))"
  using ensureStub_try_total[of s] by (auto simp: ensureStub_def)

lemma body_wf: "document_body doc \<noteq> None \<Longrightarrow> wf_document doc \<and> doc \<noteq> None"
  by (auto simp: document_body_def wf_document_def split: option.splits node.splits)

lemma lookups_succeed_ensured:
  "wf_document doc \<Longrightarrow> doc \<noteq> None \<Longrightarrow> lookups_succeed (ensured doc)"
  by (cases doc) (auto simp: wf_document_def ensured_def lookups_succeed_ensured_root)

lemma fresh_ensured:
  assumes "wf_document doc" "doc \<noteq> None" "getElementById HEADER_ID doc = None"
  shows "querySelectorAll_SEL (ensured doc) = [full_innerDiv]"
    and "doc_count (ensured doc) = doc_count doc + 4"
proof -
  from assms obtain p ks where d: "doc = Some (Element p ks)"
    "find_node (has_id HEADER_ID) (Element p ks) = None"
    by (cases doc; cases "the doc") (auto simp: wf_document_def getElementById_def)
  show "querySelectorAll_SEL (ensured doc) = [full_innerDiv]"
    using sel_ensured_root_fresh[OF d(2)] by (simp add: d(1) querySelectorAll_SEL_def ensured_def)
  show "doc_count (ensured doc) = doc_count doc + 4"
    using node_count_ensured_root_fresh[OF d(2)] by (simp add: d(1) doc_count_def ensured_def)
qed

lemma fresh_reachable_once:
  assumes "wf_document doc" "doc \<noteq> None" "getElementById HEADER_ID doc = None"
  shows "stub_reachable_once (ensured doc)"
  by (simp add: stub_reachable_once_def fresh_ensured(1)[OF assms] full_innerDiv_lastChild)

subsection \<open>How many nodes are added\<close>

lemma count_level:
  assumes "\<And>ks. nodes_count (g ks) \<le> nodes_count ks + d" "node_count c = 1"
  shows "nodes_count (upd_nodes P g (add_missing P c ks)) \<le> nodes_count ks + Suc d"
proof (cases "find_nodes P ks = None")
  case True
  have "nodes_count (upd_nodes P g (ks @ [c])) \<le> nodes_count (ks @ [c]) + d"
    using assms(1) by (rule count_upd(2))
  then show ?thesis using True assms(2) by (simp add: add_missing_def node_count_append)
next
  case False
  then have "add_missing P c ks = ks" by (rule add_missing_fix)
  moreover have "nodes_count (upd_nodes P g ks) \<le> nodes_count ks + d"
    using assms(1) by (rule count_upd(2))
  ultimately show ?thesis by simp
qed

lemma count_kids_lastChild: "nodes_count (kids_lastChild ks) \<le> nodes_count ks + 1"
proof -
  obtain sp where sp: "new_stub = Element sp []" using new_stub_shape by blast
  show ?thesis by (simp add: kids_lastChild_def sp)
qed

lemma count_kids_innerDiv: "nodes_count (kids_innerDiv ks) \<le> nodes_count ks + 2"
proof -
  obtain dp where dp: "new_innerDiv = Element dp []" using new_innerDiv_shape by blast
  have "node_count new_innerDiv = 1" by (simp add: dp)
  then show ?thesis
    unfolding kids_innerDiv_def
    using count_level[where g = kids_lastChild and d = 1, OF count_kids_lastChild] by simp
qed

lemma count_kids_container: "nodes_count (kids_container ks) \<le> nodes_count ks + 3"
proof -
  obtain cp where cp: "new_container = Element cp []" using new_container_shape by blast
  have "node_count new_container = 1" by (simp add: cp)
  then show ?thesis
    unfolding kids_container_def
    using count_level[where g = kids_innerDiv and d = 2, OF count_kids_innerDiv]
    by (simp add: numeral_3_eq_3)
qed

lemma count_ensured_root: "node_count (ensured_root root) \<le> node_count root + 4"
proof (cases "find_node (has_id HEADER_ID) root = None")
  case False
  then have "with_header root = root" by (rule with_header_fix)
  then have "ensured_root root = upd_node (has_id HEADER_ID) kids_container root"
    by (simp add: ensured_root_def)
  moreover have "node_count (upd_node (has_id HEADER_ID) kids_container root) \<le> node_count root + 3"
    using count_kids_container by (rule count_upd(1)[where g = kids_container])
  ultimately show ?thesis by simp
next
  case True
  show ?thesis
  proof (cases root)
    case (Text t)
    then show ?thesis by (simp add: ensured_root_def)
  next
    case (Element p ks)
    then show ?thesis using True node_count_ensured_root_fresh[of p ks] by simp
  qed
qed

lemma count_ensured: "doc_count (ensured doc) \<le> doc_count doc + 4"
  by (cases doc) (simp_all add: doc_count_def ensured_def count_ensured_root)

lemma emb_ensured: "emb_doc doc (ensured doc)"
  by (cases doc) (simp_all add: emb_doc_def ensured_def emb_ensured_root)

subsection \<open>Repeated calls and fixed points\<close>

lemma ensureStub_times_document:
  "document (ensureStub_times (Suc n) s) = ensured (document s)"
proof (induction n arbitrary: s)
  case 0
  then show ?case by (simp add: ensureStub_document)
next
  case (Suc n)
  have "document (ensureStub_times (Suc (Suc n)) s)
      = document (ensureStub_times (Suc n) (snd (ensureStub s)))"
    by simp
  also have "\<dots> = ensured (document (snd (ensureStub s)))" by (rule Suc.IH)
  also have "\<dots> = ensured (document s)" by (simp add: ensureStub_document ensured_idem)
  finally show ?case .
qed

lemma lookups_succeed_unchanged: "lookups_succeed doc \<Longrightarrow> ensured doc = doc"
  by (cases doc) (simp_all add: ensured_def lookups_succeed_fix)

lemma document_console_log [simp]: "document (console_log a s) = document s"
  by (simp add: console_log_def)

lemma document_console_warn [simp]: "document (console_warn a s) = document s"
  by (simp add: console_warn_def)

lemma fresh_not_reachable:
  "getElementById HEADER_ID doc = None \<Longrightarrow> querySelector_SEL doc = None"
  by (cases doc)
     (simp_all add: querySelector_SEL_def querySelectorAll_SEL_def getElementById_def
        sel_no_header)

lemma appendChild_new_innerDiv: "appendChild new_innerDiv new_stub = Inr full_innerDiv"
proof -
  obtain dp where dp: "new_innerDiv = Element dp []" "has_tag ''div'' dp"
    using new_innerDiv_shape by blast
  show ?thesis by (simp add: full_innerDiv_def dp kids_lastChild_def)
qed

subsection \<open>Removal and the two checks\<close>

lemma count_zero:
  "(count_node P n = 0) = (find_node P n = None)"
  "(count_nodes P ns = 0) = (find_nodes P ns = None)"
  by (induction P n and P ns rule: find_node_find_nodes.induct)
     (auto split: option.splits)

lemma count_remove_first:
  "find_nodes P ks = Some h \<Longrightarrow>
   count_nodes P (remove_first P ks) + count_node P h = count_nodes P ks"
proof (induction P ks rule: remove_first.induct)
  case (1 P)
  then show ?case by simp
next
  case (2 P t ks)
  then show ?case by simp
next
  case (3 P p cs ks)
  then show ?case
    by (auto split: option.splits if_splits)
qed

lemma found_counts:
  "find_node P n = Some h \<Longrightarrow> 0 < count_node P h"
  "find_nodes P ns = Some h \<Longrightarrow> 0 < count_node P h"
  by (induction P n and P ns rule: find_node_find_nodes.induct)
     (auto split: option.splits if_splits)

lemma unique_removed:
  assumes "find_nodes P ks = Some h" "count_nodes P ks = 1"
  shows "find_nodes P (remove_first P ks) = None"
proof -
  have "count_nodes P (remove_first P ks) = 0"
    using count_remove_first[OF assms(1)] found_counts(2)[OF assms(1)] assms(2) by simp
  then show ?thesis by (simp add: count_zero)
qed

lemma found_removed_header:
  "find_node (has_id HEADER_ID) n = Some h \<Longrightarrow> removed_header h"
  "find_nodes (has_id HEADER_ID) ns = Some h \<Longrightarrow> removed_header h"
  by (induction "has_id HEADER_ID" n and "has_id HEADER_ID" ns rule: find_node_find_nodes.induct)
     (auto simp: has_id_def split: option.splits if_splits)

lemma scan_mutations_result:
  "fst (scan_mutations ms (b, s))
     = (b \<or> list_ex (\<lambda>m. mtype m = ChildList \<and> list_ex removed_header (removedNodes m)) ms)"
  "document (snd (scan_mutations ms (b, s))) = document s"
  by (induction ms arbitrary: b s) auto

lemma scan_mutations_none:
  "\<not> list_ex (\<lambda>m. mtype m = ChildList \<and> list_ex removed_header (removedNodes m)) ms \<Longrightarrow>
   scan_mutations ms (b, s) = (b, s)"
  by (induction ms arbitrary: b s) auto

lemma mutation_callback_document:
  "document (mutation_callback ms s)
     = (if list_ex (\<lambda>m. mtype m = ChildList \<and> list_ex removed_header (removedNodes m)) ms
        then ensured (document s) else document s)"
proof -
  obtain b s1 where r: "scan_mutations ms (False, s) = (b, s1)"
    by (cases "scan_mutations ms (False, s)")
  have "b = list_ex (\<lambda>m. mtype m = ChildList \<and> list_ex removed_header (removedNodes m)) ms"
    and "document s1 = document s"
    using scan_mutations_result[of ms False s] by (simp_all add: r)
  then show ?thesis
    by (simp add: mutation_callback_def r ensureStub_document)
qed

lemma periodic_check_document:
  "document (periodic_check s)
     = (if \<not> stubEnsured s \<or> getElementById HEADER_ID (document s) = None
        then ensured (document s) else document s)"
  by (simp add: periodic_check_def ensureStub_document)

subsection \<open>What the calls leave alone\<close>

lemma ensureStub_changes:
  "snd (ensureStub s)
     = s\<lparr>document := document (snd (ensureStub s)),
          stubEnsured := stubEnsured (snd (ensureStub s)),
          console := console (snd (ensureStub s))\<rparr>"
proof (cases "ensureStub_try s")
  case (Inl err)
  then show ?thesis by (simp add: ensureStub_def console_warn_def)
next
  case (Inr s')
  show ?thesis
  proof (cases "document s")
    case None
    then show ?thesis
      using ensureStub_try_no_root[of s] by (simp add: ensureStub_def)
  next
    case (Some root)
    show ?thesis
    proof (cases root)
      case (Text t)
      then show ?thesis using Inr Some ensureStub_try_text_root[of s t] by simp
    next
      case (Element p ks)
      show ?thesis
      proof (cases "find_node (has_id HEADER_ID) root = None")
        case True
        then show ?thesis using Some Element ensureStub_try_inserted[of s p ks]
          by (simp add: ensureStub_def)
      next
        case False
        then show ?thesis using Some ensureStub_try_found[of s root]
          by (simp add: ensureStub_def)
      qed
    qed
  qed
qed

lemma ensureStub_keeps [simp]:
  "observer (snd (ensureStub s)) = observer s"
  "readyState (snd (ensureStub s)) = readyState s"
  "domContentLoaded_listener (snd (ensureStub s)) = domContentLoaded_listener s"
  "load_listener (snd (ensureStub s)) = load_listener s"
  "click_listener (snd (ensureStub s)) = click_listener s"
  "interval_timer (snd (ensureStub s)) = interval_timer s"
  "timeouts (snd (ensureStub s)) = timeouts s"
  "querySelector_patched (snd (ensureStub s)) = querySelector_patched s"
  "defineProperty_patched (snd (ensureStub s)) = defineProperty_patched s"
  by (subst ensureStub_changes, simp)+

lemma console_keeps [simp]:
  "observer (console_log a s) = observer s"
  "readyState (console_log a s) = readyState s"
  "domContentLoaded_listener (console_log a s) = domContentLoaded_listener s"
  "load_listener (console_log a s) = load_listener s"
  "click_listener (console_log a s) = click_listener s"
  "interval_timer (console_log a s) = interval_timer s"
  "timeouts (console_log a s) = timeouts s"
  "querySelector_patched (console_log a s) = querySelector_patched s"
  "defineProperty_patched (console_log a s) = defineProperty_patched s"
  "stubEnsured (console_log a s) = stubEnsured s"
  "observer (console_warn a s) = observer s"
  "readyState (console_warn a s) = readyState s"
  "domContentLoaded_listener (console_warn a s) = domContentLoaded_listener s"
  "load_listener (console_warn a s) = load_listener s"
  "click_listener (console_warn a s) = click_listener s"
  "interval_timer (console_warn a s) = interval_timer s"
  "timeouts (console_warn a s) = timeouts s"
  "querySelector_patched (console_warn a s) = querySelector_patched s"
  "defineProperty_patched (console_warn a s) = defineProperty_patched s"
  "stubEnsured (console_warn a s) = stubEnsured s"
  by (simp_all add: console_log_def console_warn_def)

lemma wrap_each_keeps:
  "\<exists>c. snd (wrap_each names (w, s)) = s\<lparr>console := c\<rparr>"
proof (induction names arbitrary: w s)
  case Nil
  have "s = s\<lparr>console := console s\<rparr>" by simp
  then show ?case by (metis wrap_each.simps(1) snd_conv)
next
  case (Cons fname rest)
  show ?case
  proof (cases "\<exists>f. w fname = Some (Function f)")
    case True
    then obtain f where f: "w fname = Some (Function f)" by blast
    obtain c where "snd (wrap_each rest (w(fname \<mapsto> Function (safeWrap f fname)),
        console_log [Str TAG, Str (''Wrapped function: '' @ fname)] s))
      = (console_log [Str TAG, Str (''Wrapped function: '' @ fname)] s)\<lparr>console := c\<rparr>"
      using Cons.IH by blast
    then show ?thesis by (auto simp: f console_log_def)
  next
    case False
    then have "wrap_each (fname # rest) (w, s) = wrap_each rest (w, s)"
      by (auto split: option.splits global.splits)
    then show ?thesis using Cons.IH by simp
  qed
qed

lemma wrapLegacyFunctions_keeps:
  "\<exists>c. snd (wrapLegacyFunctions (w, s)) = s\<lparr>console := c, defineProperty_patched := True\<rparr>"
proof -
  obtain w' s' where r: "wrap_each legacyFunctions (w, s) = (w', s')"
    by (cases "wrap_each legacyFunctions (w, s)")
  obtain c where "s' = s\<lparr>console := c\<rparr>"
    using wrap_each_keeps[of legacyFunctions w s] by (auto simp: r)
  then show ?thesis by (auto simp: wrapLegacyFunctions_def r)
qed

lemma setupMutationObserver_observer:
  "observer (setupMutationObserver s)
     = (case observer s of
          Some b \<Rightarrow> Some b
        | None \<Rightarrow> Some (document_body (document s) \<noteq> None))"
  by (simp add: setupMutationObserver_def console_log_def split: option.splits)

lemma setupMutationObserver_keeps [simp]:
  "click_listener (setupMutationObserver s) = click_listener s"
  "domContentLoaded_listener (setupMutationObserver s) = domContentLoaded_listener s"
  "load_listener (setupMutationObserver s) = load_listener s"
  "interval_timer (setupMutationObserver s) = interval_timer s"
  "querySelector_patched (setupMutationObserver s) = querySelector_patched s"
  "defineProperty_patched (setupMutationObserver s) = defineProperty_patched s"
  "document (setupMutationObserver s) = document s"
  "stubEnsured (setupMutationObserver s) = stubEnsured s"
  by (simp_all add: setupMutationObserver_def console_log_def)

text \<open>The body is where it was after a call: the call inserts no body and removes none.\<close>

lemma is_body_upd [simp]: "is_body (upd_node P g k) = is_body k"
  by (cases k) auto

lemma is_body_map_kids [simp]: "is_body (map_kids g k) = is_body k"
  by (cases k) auto

lemma find_body_upd: "(find is_body (upd_nodes P g ks) = None) = (find is_body ks = None)"
  by (induction ks) auto

lemma find_body_upd_body: "(find is_body (upd_body g ks) = None) = (find is_body ks = None)"
  by (induction ks) auto

lemma find_body_append:
  "(find is_body (ks @ js) = None) = (find is_body ks = None \<and> find is_body js = None)"
  by (induction ks) auto

lemma find_body_kids_container:
  "(find is_body (kids_container ks) = None) = (find is_body ks = None)"
proof -
  obtain cp where cp: "new_container = Element cp []" "has_tag ''div'' cp"
    using new_container_shape by blast
  have "\<not> is_body new_container"
    using cp(2) by (simp add: cp(1) has_tag_def)
  then show ?thesis
    by (simp add: kids_container_def find_body_upd add_missing_def find_body_append)
qed

lemma document_body_ensured:
  "(document_body (ensured doc) = None) = (document_body doc = None)"
proof (cases doc)
  case None
  then show ?thesis by (simp add: ensured_def)
next
  case (Some root)
  have nb: "\<not> is_body new_header"
    by (simp add: new_header_def createElement_def)
  show ?thesis
  proof (cases root)
    case (Text t)
    then show ?thesis using Some by (simp add: ensured_def ensured_root_def)
  next
    case (Element p ks)
    then show ?thesis
      using Some nb
      by (auto simp: ensured_def ensured_root_def document_body_def find_body_upd
          find_body_upd_body find_body_append find_body_kids_container)
  qed
qed

text \<open>The entries a completed call writes.\<close>

lemma count_log_simps [simp]:
  "count_log e (console_log a s) = count_log e s + (if (Log, a) = e then 1 else 0)"
  "count_log e (console_warn a s) = count_log e s + (if (Warn, a) = e then 1 else 0)"
  "count_log e (s\<lparr>console := console s @ c\<rparr>) = count_log e s + length (filter (\<lambda>x. x = e) c)"
  by (simp_all add: count_log_def console_log_def console_warn_def)

lemma ensureStub_console:
  assumes "wf_document (document s)"
  shows "console (snd (ensureStub s)) = console s @ [success_log]
       \<or> console (snd (ensureStub s)) = console s @ [creating_log, success_log]"
proof (cases "document s")
  case None
  then show ?thesis by (simp add: ensureStub_def ensureStub_try_no_root)
next
  case (Some root)
  with assms obtain p ks where root: "root = Element p ks"
    by (cases root) (auto simp: wf_document_def)
  show ?thesis
  proof (cases "find_node (has_id HEADER_ID) root = None")
    case True
    then show ?thesis using Some root by (simp add: ensureStub_def ensureStub_try_inserted)
  next
    case False
    then show ?thesis using Some by (simp add: ensureStub_def ensureStub_try_found)
  qed
qed

lemma count_log_ensureStub:
  assumes "wf_document (document s)"
  shows "count_log success_log (snd (ensureStub s)) = count_log success_log s + 1"
  using ensureStub_console[OF assms]
  by (auto simp: count_log_def success_log_def creating_log_def)

lemma count_log_wrap_each:
  "count_log success_log (snd (wrap_each names (w, s))) = count_log success_log s"
proof (induction names arbitrary: w s)
  case Nil
  then show ?case by simp
next
  case (Cons fname rest)
  show ?case
  proof (cases "\<exists>f. w fname = Some (Function f)")
    case True
    then obtain f where f: "w fname = Some (Function f)" by blast
    define w' where "w' = w(fname \<mapsto> Function (safeWrap f fname))"
    define s' where "s' = console_log [Str TAG, Str (''Wrapped function: '' @ fname)] s"
    have eq: "wrap_each (fname # rest) (w, s) = wrap_each rest (w', s')"
      by (simp add: f w'_def s'_def)
    have "count_log success_log s' = count_log success_log s"
      by (simp add: s'_def success_log_def)
    then show ?thesis
      unfolding eq using Cons.IH[of w' s'] by simp
  next
    case False
    then have "wrap_each (fname # rest) (w, s) = wrap_each rest (w, s)"
      by (auto split: option.splits global.splits)
    then show ?thesis using Cons.IH by simp
  qed
qed

lemma count_log_wrapLegacyFunctions:
  "count_log success_log (snd (wrapLegacyFunctions (w, s))) = count_log success_log s"
  using count_log_wrap_each[of legacyFunctions w s]
  by (cases "wrap_each legacyFunctions (w, s)") (simp add: wrapLegacyFunctions_def count_log_def)

lemma count_log_setupMutationObserver:
  "count_log success_log (setupMutationObserver s) = count_log success_log s"
  by (simp add: setupMutationObserver_def success_log_def) (simp add: count_log_def)

text \<open>\<open>init\<close>, stage by stage.\<close>

lemma init_unfolded:
  "\<exists>s4. observer s4 = None \<and> readyState s4 = rs \<and> click_listener s4
      \<and> querySelector_patched s4 \<and> defineProperty_patched s4
      \<and> document s4 = ensured doc
      \<and> (wf_document doc \<longrightarrow> stubEnsured s4 \<and> count_log success_log s4 = 1)
      \<and> snd (init (w, fresh_page doc rs))
        = console_log [Str TAG, Str ''Guard initialization complete'']
            ((if rs = Loading then s4\<lparr>domContentLoaded_listener := True\<rparr>
              else setupMutationObserver (snd (ensureStub s4)))
             \<lparr>load_listener := True, interval_timer := Some 2000\<rparr>)"
proof -
  let ?s0 = "console_log [Str TAG, Str ''Initializing Enhanced Legacy Notif Guard v4...'']
               (fresh_page doc rs)"
  let ?s1 = "snd (ensureStub ?s0)"
  obtain w' s2 where r: "wrapLegacyFunctions (w, ?s1) = (w', s2)"
    by (cases "wrapLegacyFunctions (w, ?s1)")
  obtain c where c: "s2 = ?s1\<lparr>console := c, defineProperty_patched := True\<rparr>"
    using wrapLegacyFunctions_keeps[of w ?s1] by (auto simp: r)
  define s4 where "s4 = setupJoinSessionGuard (patchQuerySelector s2)"
  have o: "observer ?s1 = None" "readyState ?s1 = rs"
    by (simp_all add: fresh_page_def)
  have d0: "document (fresh_page doc rs) = doc" by (simp add: fresh_page_def)
  have d: "document ?s1 = ensured doc"
    by (simp add: ensureStub_document fresh_page_def)
  have 1: "observer s4 = None" "readyState s4 = rs" "click_listener s4"
    "querySelector_patched s4" "defineProperty_patched s4" "document s4 = ensured doc"
    using o d by (simp_all add: s4_def c setupJoinSessionGuard_def patchQuerySelector_def
        console_log_def)
  have 2: "snd (init (w, fresh_page doc rs))
        = console_log [Str TAG, Str ''Guard initialization complete'']
            ((if readyState s4 = Loading then s4\<lparr>domContentLoaded_listener := True\<rparr>
              else setupMutationObserver (snd (ensureStub s4)))
             \<lparr>load_listener := True, interval_timer := Some 2000\<rparr>)"
    by (simp add: init_def r Let_def s4_def)
  have 3: "stubEnsured s4 \<and> count_log success_log s4 = 1" if wf: "wf_document doc"
  proof -
    have e: "stubEnsured ?s1" using ensureStub_true[of ?s0] wf by (simp add: d0)
    have "count_log success_log ?s0 = 0"
      by (simp add: success_log_def) (simp add: count_log_def fresh_page_def)
    then have n1: "count_log success_log ?s1 = 1"
      using count_log_ensureStub[of ?s0] wf by (simp add: d0)
    have "count_log success_log s2 = 1"
      using count_log_wrapLegacyFunctions[of w ?s1] n1 by (simp add: r)
    then have "count_log success_log s4 = 1"
      by (simp add: s4_def setupJoinSessionGuard_def patchQuerySelector_def success_log_def)
         (simp add: count_log_def)
    moreover have "stubEnsured s4"
      using e by (simp add: s4_def c setupJoinSessionGuard_def patchQuerySelector_def)
    ultimately show ?thesis by simp
  qed
  show ?thesis using 1 2 3 by (intro exI[where x = s4]) simp
qed

lemma init_loading:
  "observer (snd (init (w, fresh_page doc Loading))) = None
   \<and> domContentLoaded_listener (snd (init (w, fresh_page doc Loading)))
   \<and> guards_installed (snd (init (w, fresh_page doc Loading)))
   \<and> document (snd (init (w, fresh_page doc Loading))) = ensured doc
   \<and> (wf_document doc \<longrightarrow> stubEnsured (snd (init (w, fresh_page doc Loading)))
        \<and> count_log success_log (snd (init (w, fresh_page doc Loading))) = 1)"
proof -
  obtain s4 where s4: "observer s4 = None" "click_listener s4"
      "querySelector_patched s4" "defineProperty_patched s4" "document s4 = ensured doc"
      "wf_document doc \<longrightarrow> stubEnsured s4 \<and> count_log success_log s4 = 1"
      "snd (init (w, fresh_page doc Loading))
        = console_log [Str TAG, Str ''Guard initialization complete'']
            (s4\<lparr>domContentLoaded_listener := True, load_listener := True,
                 interval_timer := Some 2000\<rparr>)"
    using init_unfolded[where rs = Loading and w = w and doc = doc] by auto
  have "count_log success_log (snd (init (w, fresh_page doc Loading))) = count_log success_log s4"
    by (simp add: s4(7) success_log_def) (simp add: count_log_def)
  then show ?thesis using s4(1-6) by (simp add: s4(7) guards_installed_def)
qed

lemma init_loaded:
  assumes "rs \<noteq> Loading"
  shows "observer (snd (init (w, fresh_page doc rs))) = Some (document_body doc \<noteq> None)
   \<and> guards_installed (snd (init (w, fresh_page doc rs)))
   \<and> document (snd (init (w, fresh_page doc rs))) = ensured doc
   \<and> (wf_document doc \<longrightarrow> stubEnsured (snd (init (w, fresh_page doc rs)))
        \<and> count_log success_log (snd (init (w, fresh_page doc rs))) = 2)"
proof -
  obtain s4 where s4: "observer s4 = None" "click_listener s4"
      "querySelector_patched s4" "defineProperty_patched s4" "document s4 = ensured doc"
      "wf_document doc \<longrightarrow> stubEnsured s4 \<and> count_log success_log s4 = 1"
      "snd (init (w, fresh_page doc rs))
        = console_log [Str TAG, Str ''Guard initialization complete'']
            ((setupMutationObserver (snd (ensureStub s4)))
             \<lparr>load_listener := True, interval_timer := Some 2000\<rparr>)"
    using init_unfolded[where rs = rs and w = w and doc = doc] assms by auto
  let ?t = "setupMutationObserver (snd (ensureStub s4))"
  have o: "observer ?t = Some (document_body doc \<noteq> None)"
    using document_body_ensured[of "ensured doc"] document_body_ensured[of doc]
    by (simp add: setupMutationObserver_observer s4(1,5) ensureStub_document)
  have d: "document ?t = ensured doc"
    by (simp add: ensureStub_document s4(5) ensured_idem)
  have c: "count_log success_log (snd (init (w, fresh_page doc rs))) = count_log success_log ?t"
    by (simp add: s4(7) success_log_def) (simp add: count_log_def)
  have e: "stubEnsured ?t \<and> count_log success_log ?t = 2" if wf: "wf_document doc"
  proof -
    have w4: "wf_document (document s4)"
      using wf by (cases doc; cases "the doc")
        (auto simp: s4(5) ensured_def ensured_root_def wf_document_def)
    show ?thesis
      using ensureStub_true[OF w4] count_log_ensureStub[OF w4] s4(6) wf
      by (simp add: count_log_setupMutationObserver)
  qed
  show ?thesis using o d c e by (simp add: s4 guards_installed_def)
qed

lemma observer_periodic_check [simp]: "observer (periodic_check s) = observer s"
  by (simp add: periodic_check_def)

lemma listeners_periodic_check [simp]:
  "click_listener (periodic_check s) = click_listener s"
  "domContentLoaded_listener (periodic_check s) = domContentLoaded_listener s"
  by (simp_all add: periodic_check_def)

lemma scan_mutations_keeps:
  "observer (snd (scan_mutations ms (b, s))) = observer s"
  "click_listener (snd (scan_mutations ms (b, s))) = click_listener s"
  "domContentLoaded_listener (snd (scan_mutations ms (b, s))) = domContentLoaded_listener s"
  by (induction ms arbitrary: b s) auto

lemma mutation_callback_keeps [simp]:
  "observer (mutation_callback ms s) = observer s"
  "click_listener (mutation_callback ms s) = click_listener s"
  "domContentLoaded_listener (mutation_callback ms s) = domContentLoaded_listener s"
  using scan_mutations_keeps[of ms False s]
  by (cases "scan_mutations ms (False, s)"; simp add: mutation_callback_def)+

lemma click_listener_body_keeps:
  "click_listener_body e s = Inr s' \<Longrightarrow>
   observer s' = observer s \<and> click_listener s' = click_listener s
   \<and> domContentLoaded_listener s' = domContentLoaded_listener s"
  by (auto simp: click_listener_body_def Let_def split: option.splits node.splits if_splits)

text \<open>The events: only \<open>DOMContentLoaded\<close> sets the observer, and only once.\<close>

lemma step_observer:
  "observer (step ev s)
     = (if ev = DOMContentLoaded \<and> domContentLoaded_listener s \<and> observer s = None
        then Some (document_body (document s) \<noteq> None) else observer s)"
proof (cases ev)
  case DOMContentLoaded
  then show ?thesis
    using document_body_ensured[of "document s"]
    by (auto simp: fire_DOMContentLoaded_def domContentLoaded_body_def Let_def
        setupMutationObserver_observer ensureStub_document split: option.splits)
next
  case Load
  then show ?thesis by (simp add: fire_load_def load_body_def Let_def)
next
  case Tick
  then show ?thesis by (simp add: interval_tick_def)
next
  case Timeout
  then show ?thesis by (simp split: list.splits)
next
  case (Click e)
  then show ?thesis using click_listener_body_keeps[of e s]
    by (auto split: sum.splits)
next
  case (Observed ms)
  then show ?thesis by simp
next
  case (ExternalMutation d)
  then show ?thesis by simp
qed

lemma step_listeners:
  "click_listener (step ev s) = click_listener s"
  "domContentLoaded_listener (step ev s) = domContentLoaded_listener s"
proof -
  show "click_listener (step ev s) = click_listener s"
    using click_listener_body_keeps[of _ s]
    by (cases ev)
       (auto simp: fire_DOMContentLoaded_def domContentLoaded_body_def fire_load_def
          load_body_def Let_def interval_tick_def split: list.splits sum.splits)
  show "domContentLoaded_listener (step ev s) = domContentLoaded_listener s"
    using click_listener_body_keeps[of _ s]
    by (cases ev)
       (auto simp: fire_DOMContentLoaded_def domContentLoaded_body_def fire_load_def
          load_body_def Let_def interval_tick_def split: list.splits sum.splits)
qed

lemma step_DOMContentLoaded:
  assumes "domContentLoaded_listener s"
  shows "document (step DOMContentLoaded s) = ensured (document s)"
    and "wf_document (document s) \<Longrightarrow>
         count_log success_log (step DOMContentLoaded s) = count_log success_log s + 1"
proof -
  let ?t = "console_log [Str TAG, Str ''DOM ready, re-ensuring stub...'']
              (s\<lparr>readyState := Interactive\<rparr>)"
  have st: "fire_DOMContentLoaded s = setupMutationObserver (snd (ensureStub ?t))"
    using assms by (simp add: fire_DOMContentLoaded_def domContentLoaded_body_def Let_def)
  show "document (step DOMContentLoaded s) = ensured (document s)"
    by (simp add: st ensureStub_document)
  assume wf: "wf_document (document s)"
  have "count_log success_log ?t = count_log success_log s"
    by (simp add: success_log_def) (simp add: count_log_def)
  then show "count_log success_log (step DOMContentLoaded s) = count_log success_log s + 1"
    using count_log_ensureStub[of ?t] wf
    by (simp add: st count_log_setupMutationObserver)
qed

lemma step_bootstrapping:
  assumes "phase s = Bootstrapping" "domContentLoaded_listener s"
  shows "phase (step ev s)
     = (if ev = DOMContentLoaded
        then (if document_body (document s) \<noteq> None then Active else Unattached)
        else Bootstrapping)"
    and "domContentLoaded_listener (step ev s)"
proof -
  from assms(1) have o: "observer s = None" "click_listener s"
    by (auto simp: phase_def split: option.splits if_splits)
  show "phase (step ev s)
     = (if ev = DOMContentLoaded
        then (if document_body (document s) \<noteq> None then Active else Unattached)
        else Bootstrapping)"
    using o assms(2) by (simp add: phase_def step_observer step_listeners)
  show "domContentLoaded_listener (step ev s)"
    using assms(2) by (simp add: step_listeners)
qed

lemma step_settled:
  "phase s = Active \<Longrightarrow> phase (step ev s) = Active"
  "phase s = Unattached \<Longrightarrow> phase (step ev s) = Unattached"
  by (auto simp: phase_def step_observer split: option.splits if_splits)

subsection \<open>The window after wrapping\<close>

lemma wrap_each_window:
  "distinct names \<Longrightarrow>
   fst (wrap_each names (w, s)) x
     = (if x \<in> set names
        then (case w x of Some (Function f) \<Rightarrow> Some (Function (safeWrap f x)) | v \<Rightarrow> v)
        else w x)"
proof (induction names arbitrary: w s)
  case Nil
  then show ?case by simp
next
  case (Cons fname rest)
  then have d: "distinct rest" "fname \<notin> set rest" by simp_all
  show ?case
  proof (cases "\<exists>f. w fname = Some (Function f)")
    case True
    then obtain f where f: "w fname = Some (Function f)" by blast
    define w' where "w' = w(fname \<mapsto> Function (safeWrap f fname))"
    define s' where "s' = console_log [Str TAG, Str (''Wrapped function: '' @ fname)] s"
    have eq: "wrap_each (fname # rest) (w, s) = wrap_each rest (w', s')"
      by (simp add: f w'_def s'_def)
    have ih: "fst (wrap_each rest (w', s')) x
      = (if x \<in> set rest
         then (case w' x of Some (Function f) \<Rightarrow> Some (Function (safeWrap f x)) | v \<Rightarrow> v)
         else w' x)"
      by (rule Cons.IH[OF d(1)])
    show ?thesis
      unfolding eq ih using d(2) by (auto simp: w'_def f)
  next
    case False
    then have "wrap_each (fname # rest) (w, s) = wrap_each rest (w, s)"
      by (auto split: option.splits global.splits)
    then show ?thesis
      using Cons.IH[OF d(1), of w s] False
      by (auto split: option.splits global.splits)
  qed
qed

lemma legacyFunctions_distinct: "distinct legacyFunctions"
  by (simp add: legacyFunctions_def)

lemma wrapLegacyFunctions_window:
  "fst (wrapLegacyFunctions (w, s)) x
     = (if x \<in> set legacyFunctions
        then (case w x of Some (Function f) \<Rightarrow> Some (Function (safeWrap f x)) | v \<Rightarrow> v)
        else w x)"
  using wrap_each_window[OF legacyFunctions_distinct, of w s x]
  by (cases "wrap_each legacyFunctions (w, s)") (simp add: wrapLegacyFunctions_def)

lemma init_window:
  "fst (init (w, fresh_page doc rs)) x
     = (if x \<in> set legacyFunctions
        then (case w x of Some (Function f) \<Rightarrow> Some (Function (safeWrap f x)) | v \<Rightarrow> v)
        else w x)"
proof -
  let ?s1 = "snd (ensureStub
            (console_log [Str TAG, Str ''Initializing Enhanced Legacy Notif Guard v4...'']
               (fresh_page doc rs)))"
  obtain w' s2 where r: "wrapLegacyFunctions (w, ?s1) = (w', s2)"
    by (cases "wrapLegacyFunctions (w, ?s1)")
  have "fst (init (w, fresh_page doc rs)) = w'"
    by (simp add: init_def r Let_def)
  then show ?thesis
    using wrapLegacyFunctions_window[of w ?s1 x] by (simp add: r)
qed

subsection \<open>The console override on arguments that convert\<close>

text \<open>
  When every argument converts to a string, the installed \<open>console.error\<close> suppresses
  the call (a tagged warning, nothing forwarded) if the joined message contains both
  \<open>lastChild\<close> and \<open>home-header2\<close>, or \<open>updateTabletBadge\<close>, or
  \<open>initNotificationBadge\<close>, and otherwise forwards the arguments unchanged.
\<close>

lemma console_error_convertible:
  assumes "join_args args = Inr msg"
  shows "console_error args s =
     (if js_includes msg ''lastChild'' \<and> js_includes msg ''home-header2''
      then Inr (console_warn [Str TAG, Str ''Suppressed error:'', Str msg] s)
      else if js_includes msg ''updateTabletBadge'' \<or> js_includes msg ''initNotificationBadge''
      then Inr (console_warn [Str TAG, Str ''Suppressed notification badge error:'', Str msg] s)
      else Inr (originalConsoleError args s))"
  using assms by (simp add: console_error_def)

lemma join_args_strings: "\<exists>msg. join_args (map Str ts) = Inr msg"
proof (induction ts rule: induct_list012)
  case 1
  then show ?case by simp
next
  case (2 x)
  then show ?case by simp
next
  case (3 x y zs)
  then show ?case by auto
qed

subsection \<open>Encoding and decoding\<close>

lemma of_char_less: "(of_char c :: nat) < 256"
  by (cases c) (simp add: of_char_def)

lemma hex_digit_facts:
  assumes "n < 16"
  shows "hex_value (hex_digit n) = Some n" "is_alnum (hex_digit n)"
  using assms by (auto simp: hex_value_def hex_digit_def is_alnum_def Let_def)

lemma alnum_not_special:
  "is_alnum c \<Longrightarrow> c \<noteq> CHR ''%'' \<and> c \<noteq> CHR ''+'' \<and> c \<noteq> CHR ''&'' \<and> c \<noteq> CHR ''=''
     \<and> c \<noteq> CHR ''#'' \<and> c \<noteq> CHR ''?'' \<and> c \<noteq> CHR '' ''"
  by (auto simp: is_alnum_def Let_def)

lemma percent_decode_encode_byte:
  "percent_decode (percent_encode_byte c @ t) = c # percent_decode t"
proof -
  let ?n = "of_char c :: nat"
  have "?n < 16 * 16" using of_char_less[of c] by simp
  then have d: "?n div 16 < 16" "?n mod 16 < 16"
    by (simp_all add: less_mult_imp_div_less)
  have "char_of (16 * (?n div 16) + ?n mod 16) = c"
    by simp
  then show ?thesis
    using hex_digit_facts(1)[OF d(1)] hex_digit_facts(1)[OF d(2)]
    by (simp add: percent_encode_byte_def)
qed

lemma plus_to_space_append: "plus_to_space (a @ b) = plus_to_space a @ plus_to_space b"
  by (simp add: plus_to_space_def)

lemma plus_to_space_percent: "plus_to_space (percent_encode_byte c) = percent_encode_byte c"
proof -
  let ?n = "of_char c :: nat"
  have "?n < 16 * 16" using of_char_less[of c] by simp
  then have d: "?n div 16 < 16" "?n mod 16 < 16"
    by (simp_all add: less_mult_imp_div_less)
  show ?thesis
    using hex_digit_facts(2)[OF d(1)] hex_digit_facts(2)[OF d(2)] alnum_not_special
    by (auto simp: plus_to_space_def percent_encode_byte_def)
qed

lemma percent_decode_plain:
  "c \<noteq> CHR ''%'' \<Longrightarrow> percent_decode (c # t) = c # percent_decode t"
  by (cases t rule: percent_decode.cases) auto

lemma decode_urlencode_byte:
  "percent_decode (plus_to_space (urlencode_byte c) @ t) = c # percent_decode t"
proof (cases "c = CHR '' ''")
  case True
  then show ?thesis
    by (simp add: urlencode_byte_def plus_to_space_def percent_decode_plain)
next
  case False
  show ?thesis
  proof (cases "is_alnum c \<or> c = CHR ''*'' \<or> c = CHR ''-'' \<or> c = CHR ''.'' \<or> c = CHR ''_''")
    case True
    then have "c \<noteq> CHR ''%''" "c \<noteq> CHR ''+''"
      using alnum_not_special[of c] by auto
    then show ?thesis using True False
      by (simp add: urlencode_byte_def plus_to_space_def percent_decode_plain)
  next
    case no: False
    then show ?thesis using False
      by (simp add: urlencode_byte_def plus_to_space_percent percent_decode_encode_byte)
  qed
qed

lemma decode_urlencode_append:
  "percent_decode (plus_to_space (urlencode s) @ t) = s @ percent_decode t"
proof (induction s)
  case Nil
  then show ?case by (simp add: urlencode_def plus_to_space_def)
next
  case (Cons c s)
  have "plus_to_space (urlencode (c # s)) @ t
      = plus_to_space (urlencode_byte c) @ (plus_to_space (urlencode s) @ t)"
    by (simp add: urlencode_def plus_to_space_append)
  then show ?case using Cons by (simp add: decode_urlencode_byte)
qed

lemma decode_urlencode: "percent_decode (plus_to_space (urlencode s)) = s"
  using decode_urlencode_append[of s "[]"] by simp

lemma urlencode_byte_out: "x \<in> set (urlencode_byte c) \<Longrightarrow> urlencoded_out x"
proof -
  let ?n = "of_char c :: nat"
  have "?n < 16 * 16" using of_char_less[of c] by simp
  then have d: "?n div 16 < 16" "?n mod 16 < 16"
    by (simp_all add: less_mult_imp_div_less)
  show "x \<in> set (urlencode_byte c) \<Longrightarrow> urlencoded_out x"
    using hex_digit_facts(2)[OF d(1)] hex_digit_facts(2)[OF d(2)]
    by (auto simp: urlencode_byte_def urlencoded_out_def percent_encode_byte_def
        split: if_splits)
qed

lemma urlencode_out: "x \<in> set (urlencode s) \<Longrightarrow> urlencoded_out x"
  by (auto simp: urlencode_def urlencode_byte_out)

lemma urlencoded_out_not_delim:
  "urlencoded_out c \<Longrightarrow> c \<noteq> CHR ''&'' \<and> c \<noteq> CHR ''='' \<and> c \<noteq> CHR ''#'' \<and> c \<noteq> CHR ''?''"
  using alnum_not_special[of c] by (auto simp: urlencoded_out_def)

lemma urlencode_no_delim:
  "CHR ''&'' \<notin> set (urlencode s)" "CHR ''='' \<notin> set (urlencode s)"
  "CHR ''#'' \<notin> set (urlencode s)" "CHR ''?'' \<notin> set (urlencode s)"
  using urlencode_out[of _ s] urlencoded_out_not_delim by blast+

lemma split_on_none: "c \<notin> set a \<Longrightarrow> split_on c a = [a]"
  by (induction a) auto

lemma split_on_append: "c \<notin> set a \<Longrightarrow> split_on c (a @ c # rest) = a # split_on c rest"
  by (induction a) auto

lemma parse_pair_encoded: "parse_pair (urlencode n @ ''='' @ urlencode v) = (n, v)"
proof -
  have t: "takeWhile (\<lambda>c. c \<noteq> CHR ''='') (urlencode n @ CHR ''='' # urlencode v) = urlencode n"
    using urlencode_no_delim(2)[of n] by (simp add: takeWhile_append)
  have d: "dropWhile (\<lambda>c. c \<noteq> CHR ''='') (urlencode n @ CHR ''='' # urlencode v)
      = CHR ''='' # urlencode v"
    using urlencode_no_delim(2)[of n] by (simp add: dropWhile_append)
  show ?thesis by (simp add: parse_pair_def t d decode_urlencode)
qed

lemma pair_no_amp: "CHR ''&'' \<notin> set (urlencode n @ ''='' @ urlencode v)"
  using urlencode_no_delim(1) by simp

lemma urlencoded_roundtrip: "urlencoded_parse (urlencoded_serialize ps) = ps"
proof (induction ps rule: urlencoded_serialize.induct)
  case 1
  then show ?case by (simp add: urlencoded_parse_def)
next
  case (2 n v)
  have "split_on CHR ''&'' (urlencode n @ ''='' @ urlencode v) = [urlencode n @ ''='' @ urlencode v]"
    using pair_no_amp by (rule split_on_none)
  then show ?case
    using parse_pair_encoded[of n v] by (simp add: urlencoded_parse_def)
next
  case (3 n v p ps)
  have "split_on CHR ''&'' ((urlencode n @ ''='' @ urlencode v) @ CHR ''&'' # urlencoded_serialize (p # ps))
      = (urlencode n @ ''='' @ urlencode v) # split_on CHR ''&'' (urlencoded_serialize (p # ps))"
    using pair_no_amp by (rule split_on_append)
  then show ?case
    using 3 parse_pair_encoded[of n v] by (simp add: urlencoded_parse_def)
qed

lemma js_includes_set: "js_includes s t \<Longrightarrow> set t \<subseteq> set s"
proof (induction s)
  case Nil
  then show ?case by simp
next
  case (Cons c s)
  show ?case
  proof (cases "prefix t (c # s)")
    case True
    then show ?thesis using set_mono_prefix by blast
  next
    case False
    then have "set t \<subseteq> set s" using Cons by simp
    then show ?thesis by auto
  qed
qed

lemma trims_to_empty_bytes:
  "trims_to_empty s \<Longrightarrow> c \<in> set s \<Longrightarrow> ascii_space c \<or> 128 \<le> (of_char c :: nat)"
proof (induction s rule: trims_to_empty.induct)
  case 1
  then show ?case by simp
next
  case (2 x xs)
  show ?case
  proof (cases "ascii_space x")
    case True
    then show ?thesis using 2 by auto
  next
    case False
    then obtain d ds where xs: "xs = d # ds" using "2.prems" by (cases xs) auto
    show ?thesis
    proof (cases "(of_char x :: nat) = 0xC2 \<and> (of_char d :: nat) = 0xA0")
      case True
      then show ?thesis using 2 False xs by auto
    next
      case no: False
      then obtain e es where ds: "ds = e # es" using "2.prems" False xs by (cases ds) auto
      have s3: "space3 x d e" "trims_to_empty es"
        using "2.prems"(1) False no xs ds by auto
      have hi: "128 \<le> (of_char x :: nat)" "128 \<le> (of_char d :: nat)" "128 \<le> (of_char e :: nat)"
        using s3(1) by (auto simp: space3_def Let_def)
      have "c \<in> set es \<Longrightarrow> ascii_space c \<or> 128 \<le> (of_char c :: nat)"
        using "2.IH"(3)[OF False xs no ds] s3(2) by simp
      then show ?thesis using "2.prems"(2) hi xs ds by auto
    qed
  qed
qed

lemma zoom_not_blank:
  assumes "js_includes u ''zoom.us''"
  shows "u \<noteq> []" "\<not> trims_to_empty u"
proof -
  have z: "CHR ''z'' \<in> set u" using js_includes_set[OF assms] by simp
  then show "u \<noteq> []" by auto
  show "\<not> trims_to_empty u"
  proof
    assume "trims_to_empty u"
    then have "ascii_space CHR ''z'' \<or> 128 \<le> (of_char CHR ''z'' :: nat)"
      using z by (rule trims_to_empty_bytes)
    then show False by (simp add: ascii_space_def)
  qed
qed

lemma query_encode_id:
  assumes "\<And>x. x \<in> set q \<Longrightarrow> urlencoded_out x \<or> x = CHR ''='' \<or> x = CHR ''&''"
  shows "concat (map query_encode_byte q) = q"
  using assms
proof (induction q)
  case Nil
  then show ?case by simp
next
  case (Cons c q)
  have "urlencoded_out c \<or> c = CHR ''='' \<or> c = CHR ''&''" using Cons.prems by simp
  then have "query_encode_byte c = [c]"
    by (auto simp: query_encode_byte_def urlencoded_out_def is_alnum_def Let_def)
  then show ?case using Cons by simp
qed

lemma serialize_out:
  "x \<in> set (urlencoded_serialize ps) \<Longrightarrow> urlencoded_out x \<or> x = CHR ''='' \<or> x = CHR ''&''"
  by (induction ps rule: urlencoded_serialize.induct) (auto dest: urlencode_out)

lemma location_search_built:
  assumes "CHR ''?'' \<notin> set origin" "CHR ''#'' \<notin> set origin" "ps \<noteq> []"
  shows "location_search
           (url_toString \<lparr>url_origin = origin, pathname = ''/meeting'', searchParams = ps\<rparr>)
         = ''?'' @ urlencoded_serialize ps"
proof -
  let ?q = "urlencoded_serialize ps"
  have ne: "?q \<noteq> []" using assms(3)
    by (induction ps rule: urlencoded_serialize.induct) auto
  have nohash: "CHR ''#'' \<notin> set ?q"
    using serialize_out[of "CHR ''#''" ps] by (auto simp: urlencoded_out_def is_alnum_def Let_def)
  define address where "address = (origin @ ''/meeting'') @ CHR ''?'' # ?q"
  have u: "url_toString \<lparr>url_origin = origin, pathname = ''/meeting'', searchParams = ps\<rparr>
      = address"
    using ne by (simp add: url_toString_def address_def)
  have pre: "\<And>c. c \<in> set (origin @ ''/meeting'') \<Longrightarrow> c \<noteq> CHR ''?''"
    using assms(1) by auto
  have "dropWhile (\<lambda>c. c \<noteq> CHR ''?'') address
      = dropWhile (\<lambda>c. c \<noteq> CHR ''?'') (CHR ''?'' # ?q)"
    unfolding address_def using pre by (rule dropWhile_append2)
  then have d: "drop 1 (dropWhile (\<lambda>c. c \<noteq> CHR ''?'') address) = ?q"
    by simp
  have t: "takeWhile (\<lambda>c. c \<noteq> CHR ''#'') ?q = ?q"
    using nohash by auto
  have e: "concat (map query_encode_byte ?q) = ?q"
    using serialize_out by (rule query_encode_id)
  show ?thesis
    unfolding u location_search_def d t e Let_def using ne by simp
qed

lemma handleJoinSession_params:
  assumes "js_includes u ''zoom.us''" "CHR ''?'' \<notin> set origin" "CHR ''#'' \<notin> set origin"
  shows "\<exists>address. handleJoinSession origin (Some u) sessionIdParam = Redirect address
        \<and> fst (meeting_page_params (location_search address)) = Some u
        \<and> snd (meeting_page_params (location_search address))
            = (case sessionIdParam of None \<Rightarrow> None | Some i \<Rightarrow> if i = [] then None else Some i)"
proof -
  define ps where "ps = [(''meetingUrl'', u)]
      @ (case sessionIdParam of None \<Rightarrow> [] | Some i \<Rightarrow> if i = [] then [] else [(''sessionId'', i)])"
  have h: "handleJoinSession origin (Some u) sessionIdParam
      = Redirect (url_toString \<lparr>url_origin = origin, pathname = ''/meeting'', searchParams = ps\<rparr>)"
    using zoom_not_blank[OF assms(1)]
    by (auto simp: handleJoinSession_def new_URL_def ps_def Let_def split: option.splits)
  have "ps \<noteq> []" by (simp add: ps_def)
  then have l: "location_search
           (url_toString \<lparr>url_origin = origin, pathname = ''/meeting'', searchParams = ps\<rparr>)
         = ''?'' @ urlencoded_serialize ps"
    using assms by (intro location_search_built) auto
  have p: "URLSearchParams (''?'' @ urlencoded_serialize ps) = ps"
    by (simp add: URLSearchParams_def urlencoded_roundtrip)
  have g: "searchParams_get ''meetingUrl'' ps = Some u"
    "searchParams_get ''sessionId'' ps
       = (case sessionIdParam of None \<Rightarrow> None | Some i \<Rightarrow> if i = [] then None else Some i)"
    by (auto simp: searchParams_get_def ps_def split: option.splits)
  show ?thesis
    using h l p g by (simp add: meeting_page_params_def Let_def)
qed

subsection \<open>Unambiguous documents\<close>

text \<open>
  On an unambiguous document the selector and the lookups of the script pick the same
  nodes: the matches of the selector are the \<open>div\<close> children of the one container,
  and the script's inner div is the first of them.
\<close>

lemma no_header_measures:
  "find_node (has_id HEADER_ID) n = None \<Longrightarrow>
     containers_node False n = 0 \<and> wrapped_node False False False n = 0"
  "find_nodes (has_id HEADER_ID) ns = None \<Longrightarrow>
     containers_nodes False ns = 0 \<and> wrapped_nodes False False False ns = 0"
  by (induction "has_id HEADER_ID" n and "has_id HEADER_ID" ns rule: find_node_find_nodes.induct)
     (auto split: option.splits if_splits)

lemma at_header:
  "find_node (has_id HEADER_ID) n = Some h \<Longrightarrow> count_node (has_id HEADER_ID) n \<le> 1 \<Longrightarrow>
     sel_node False False n = sel_nodes True False (childNodes h)
     \<and> containers_node False n = containers_nodes True (childNodes h)
     \<and> wrapped_node False False False n = wrapped_nodes True False False (childNodes h)"
  "find_nodes (has_id HEADER_ID) ns = Some h \<Longrightarrow> count_nodes (has_id HEADER_ID) ns \<le> 1 \<Longrightarrow>
     sel_nodes False False ns = sel_nodes True False (childNodes h)
     \<and> containers_nodes False ns = containers_nodes True (childNodes h)
     \<and> wrapped_nodes False False False ns = wrapped_nodes True False False (childNodes h)"
proof (induction "has_id HEADER_ID" n and "has_id HEADER_ID" ns
    arbitrary: h and h rule: find_node_find_nodes.induct)
  case (1 s)
  then show ?case by simp
next
  case (2 p ks)
  then show ?case by (auto split: if_splits)
next
  case 3
  then show ?case by simp
next
  case (4 k ks)
  show ?case
  proof (cases "find_node (has_id HEADER_ID) k")
    case None
    then show ?thesis
      using 4 sel_no_header(1)[of k] no_header_measures(1)[of k]
      by (auto simp: count_zero)
  next
    case (Some r)
    then have r: "r = h" using 4(3) by simp
    have "0 < count_node (has_id HEADER_ID) k"
      using Some count_zero(1)[of "has_id HEADER_ID" k] by auto
    then have "count_nodes (has_id HEADER_ID) ks = 0" "count_node (has_id HEADER_ID) k \<le> 1"
      using 4(4) by auto
    then have "find_nodes (has_id HEADER_ID) ks = None" by (simp add: count_zero)
    then show ?thesis
      using 4(1)[of h] Some r \<open>count_node (has_id HEADER_ID) k \<le> 1\<close>
        sel_no_header(2)[of ks] no_header_measures(2)[of ks]
      by auto
  qed
qed

lemma containers_True:
  "containers_node True n = count_node (has_class ''container'') n"
  "containers_nodes True ns = count_nodes (has_class ''container'') ns"
  by (induction "has_class ''container''" n and "has_class ''container''" ns
      rule: count_node_count_nodes.induct) auto

lemma no_container_measures:
  "find_node (has_class ''container'') n = None \<Longrightarrow>
     sel_node a False n = [] \<and> wrapped_node a False False n = 0"
  "find_nodes (has_class ''container'') ns = None \<Longrightarrow>
     sel_nodes a False ns = [] \<and> wrapped_nodes a False False ns = 0"
  by (induction "has_class ''container''" n and "has_class ''container''" ns
      arbitrary: a and a rule: find_node_find_nodes.induct)
     (auto split: option.splits if_splits)

lemma at_container:
  "find_node (has_class ''container'') n = Some c \<Longrightarrow>
   count_node (has_class ''container'') n \<le> 1 \<Longrightarrow>
     sel_node True False n = sel_nodes True True (childNodes c)
     \<and> wrapped_node True False False n = wrapped_nodes True True False (childNodes c)
     \<and> count_nodes (has_class ''container'') (childNodes c) = 0"
  "find_nodes (has_class ''container'') ns = Some c \<Longrightarrow>
   count_nodes (has_class ''container'') ns \<le> 1 \<Longrightarrow>
     sel_nodes True False ns = sel_nodes True True (childNodes c)
     \<and> wrapped_nodes True False False ns = wrapped_nodes True True False (childNodes c)
     \<and> count_nodes (has_class ''container'') (childNodes c) = 0"
proof (induction "has_class ''container''" n and "has_class ''container''" ns
    arbitrary: c and c rule: find_node_find_nodes.induct)
  case (1 s)
  then show ?case by simp
next
  case (2 p ks)
  then show ?case by (auto split: if_splits)
next
  case 3
  then show ?case by simp
next
  case (4 k ks)
  show ?case
  proof (cases "find_node (has_class ''container'') k")
    case None
    then show ?thesis
      using 4 no_container_measures(1)[of k True]
      by (auto simp: count_zero)
  next
    case (Some r)
    then have r: "r = c" using 4(3) by simp
    have "0 < count_node (has_class ''container'') k"
      using Some count_zero(1)[of "has_class ''container''" k] by auto
    then have z: "count_nodes (has_class ''container'') ks = 0"
      "count_node (has_class ''container'') k \<le> 1"
      using 4(4) by auto
    then have "find_nodes (has_class ''container'') ks = None" by (simp add: count_zero)
    then show ?thesis
      using 4(1)[of c] Some r z(2) no_container_measures(2)[of ks True]
      by auto
  qed
qed

lemma wrapped_True:
  "wrapped_node a b True n = count_node (has_tag ''div'') n"
  "wrapped_nodes a b True ns = count_nodes (has_tag ''div'') ns"
  by (induction "has_tag ''div''" n and "has_tag ''div''" ns
      arbitrary: a b and a b rule: count_node_count_nodes.induct) auto

lemma sel_children:
  "count_nodes (has_class ''container'') ks = 0 \<Longrightarrow> sel_nodes True True ks = filter is_div ks"
proof (induction ks)
  case Nil
  then show ?case by simp
next
  case (Cons k ks)
  show ?case
  proof (cases k)
    case (Text t)
    then show ?thesis using Cons by simp
  next
    case (Element p js)
    then have "\<not> has_class ''container'' p" "find_nodes (has_class ''container'') js = None"
      using Cons.prems by (auto simp: count_zero split: if_splits)
    then show ?thesis
      using Cons Element no_container_measures(2)[of js True] by auto
  qed
qed

lemma find_children:
  "wrapped_nodes True True False ks = 0 \<Longrightarrow> find_nodes (has_tag ''div'') ks = find is_div ks"
proof (induction ks)
  case Nil
  then show ?case by simp
next
  case (Cons k ks)
  show ?case
  proof (cases k)
    case (Text t)
    then show ?thesis using Cons by simp
  next
    case (Element p js)
    then show ?thesis
      using Cons by (auto simp: wrapped_True count_zero split: if_splits option.splits)
  qed
qed

lemma hd_filter_find: "(case filter P xs of [] \<Rightarrow> None | m # _ \<Rightarrow> Some m) = find P xs"
  by (induction xs) auto

lemma count_nodes_append: "count_nodes P (ks @ js) = count_nodes P ks + count_nodes P js"
  by (induction ks) auto

lemma count_upd_same:
  assumes "\<And>ks. count_nodes P (g ks) = count_nodes P ks"
  shows "count_node P (upd_node Q g n) = count_node P n"
    and "count_nodes P (upd_nodes Q g ns) = count_nodes P ns"
  using assms by (induction Q g n and Q g ns rule: upd_node_upd_nodes.induct) auto

lemma count_add_missing:
  "count_nodes P (add_missing Q c ks)
     = count_nodes P ks + (if find_nodes Q ks = None then count_node P c else 0)"
  by (simp add: add_missing_def count_nodes_append)

lemma count_kids_lastChild_same:
  "count_nodes (has_id HEADER_ID) (kids_lastChild ks) = count_nodes (has_id HEADER_ID) ks"
  "count_nodes (has_class ''container'') (kids_lastChild ks)
     = count_nodes (has_class ''container'') ks"
proof -
  obtain sp where sp: "new_stub = Element sp []" "\<not> has_class ''container'' sp"
    "\<not> has_id HEADER_ID sp"
    using new_stub_shape by blast
  show "count_nodes (has_id HEADER_ID) (kids_lastChild ks) = count_nodes (has_id HEADER_ID) ks"
    "count_nodes (has_class ''container'') (kids_lastChild ks)
     = count_nodes (has_class ''container'') ks"
    by (simp_all add: kids_lastChild_def sp)
qed

lemma count_kids_innerDiv_same:
  "count_nodes (has_id HEADER_ID) (kids_innerDiv ks) = count_nodes (has_id HEADER_ID) ks"
  "count_nodes (has_class ''container'') (kids_innerDiv ks)
     = count_nodes (has_class ''container'') ks"
proof -
  obtain dp where dp: "new_innerDiv = Element dp []" "\<not> has_class ''container'' dp"
    "\<not> has_id HEADER_ID dp"
    using new_innerDiv_shape by blast
  show "count_nodes (has_id HEADER_ID) (kids_innerDiv ks) = count_nodes (has_id HEADER_ID) ks"
    unfolding kids_innerDiv_def
    by (simp add: count_upd_same(2)[where g = kids_lastChild, OF count_kids_lastChild_same(1)]
        count_add_missing dp)
  show "count_nodes (has_class ''container'') (kids_innerDiv ks)
     = count_nodes (has_class ''container'') ks"
    unfolding kids_innerDiv_def
    by (simp add: count_upd_same(2)[where g = kids_lastChild, OF count_kids_lastChild_same(2)]
        count_add_missing dp)
qed

lemma count_kids_container_id:
  "count_nodes (has_id HEADER_ID) (kids_container ks) = count_nodes (has_id HEADER_ID) ks"
proof -
  obtain cp where cp: "new_container = Element cp []" "\<not> has_id HEADER_ID cp"
    using new_container_shape by blast
  show ?thesis
    unfolding kids_container_def
    by (simp add: count_upd_same(2)[where g = kids_innerDiv, OF count_kids_innerDiv_same(1)]
        count_add_missing cp)
qed

lemma count_upd_body:
  "find is_body ks \<noteq> None \<Longrightarrow>
   count_nodes P (upd_body ((#) c) ks) = count_nodes P ks + count_node P c"
proof (induction ks)
  case Nil
  then show ?case by simp
next
  case (Cons k ks)
  then show ?case by (cases k) auto
qed

lemma find_upd_body_value:
  "find is_body ks \<noteq> None \<Longrightarrow> find_nodes (has_id HEADER_ID) ks = None \<Longrightarrow>
   find_nodes (has_id HEADER_ID) (upd_body ((#) new_header) ks) = Some new_header"
proof -
  obtain hp where hp: "new_header = Element hp []" "has_id HEADER_ID hp"
    using new_header_shape by blast
  show "find is_body ks \<noteq> None \<Longrightarrow> find_nodes (has_id HEADER_ID) ks = None \<Longrightarrow> ?thesis"
  proof (induction ks)
    case Nil
    then show ?case by simp
  next
    case (Cons k ks)
    then show ?case
      by (cases k) (auto simp: hp split: option.splits if_splits)
  qed
qed

lemma with_header_new:
  assumes "is_element root" "find_node (has_id HEADER_ID) root = None"
  shows "find_node (has_id HEADER_ID) (with_header root) = Some new_header"
    and "count_node (has_id HEADER_ID) (with_header root) = 1"
proof -
  obtain hp where hp: "new_header = Element hp []" "has_id HEADER_ID hp"
    using new_header_shape by blast
  obtain p ks where root: "root = Element p ks" using assms(1) by (cases root) auto
  have nh: "\<not> has_id HEADER_ID p" "find_nodes (has_id HEADER_ID) ks = None"
    using assms(2) root by (auto split: if_splits)
  then have z: "count_nodes (has_id HEADER_ID) ks = 0" by (simp add: count_zero)
  show "find_node (has_id HEADER_ID) (with_header root) = Some new_header"
    using nh find_upd_body_value[of ks]
    by (auto simp: root find_nodes_append hp)
  show "count_node (has_id HEADER_ID) (with_header root) = 1"
    using nh z count_upd_body[of ks "has_id HEADER_ID" new_header]
    by (auto simp: root count_nodes_append hp)
qed

text \<open>The header the call works on, and what lies below it.\<close>

lemma header_level:
  assumes "is_element root" "unambiguous (Some root)"
  shows "\<exists>h0. find_node (has_id HEADER_ID) (with_header root) = Some h0
     \<and> count_node (has_id HEADER_ID) (with_header root) \<le> 1
     \<and> count_nodes (has_class ''container'') (childNodes h0) \<le> 1
     \<and> wrapped_nodes True False False (childNodes h0) = 0
     \<and> sel_nodes True False (childNodes h0) = sel_node False False root
     \<and> (find_node (has_id HEADER_ID) root = None \<longrightarrow> childNodes h0 = [])
     \<and> (find_node (has_id HEADER_ID) root \<noteq> None \<longrightarrow> find_node (has_id HEADER_ID) root = Some h0)"
proof (cases "find_node (has_id HEADER_ID) root")
  case None
  obtain hp where hp: "new_header = Element hp []" using new_header_shape by blast
  show ?thesis
    using with_header_new[OF assms(1) None] None sel_no_header(1)[OF None]
    by (simp add: hp)
next
  case (Some h)
  then have w: "with_header root = root" by (intro with_header_fix) simp
  have u: "count_node (has_id HEADER_ID) root \<le> 1" "containers_node False root \<le> 1"
    "wrapped_node False False False root = 0"
    using assms(2) by (simp_all add: unambiguous_def)
  show ?thesis
    using at_header(1)[OF Some u(1)] u Some
    by (simp add: w containers_True)
qed

text \<open>The container the call works on.\<close>

lemma sel_nodes_length_append:
  "length (sel_nodes a b (ks @ js)) = length (sel_nodes a b ks) + length (sel_nodes a b js)"
  by (simp add: sel_nodes_append)

lemma wrapped_nodes_append:
  "wrapped_nodes a b w (ks @ js) = wrapped_nodes a b w ks + wrapped_nodes a b w js"
  by (induction ks) auto

lemma container_level:
  assumes "count_nodes (has_class ''container'') hks \<le> 1"
    "wrapped_nodes True False False hks = 0"
  shows "\<exists>c0. find_nodes (has_class ''container'') (add_missing (has_class ''container'') new_container hks)
        = Some c0
     \<and> count_nodes (has_class ''container'') (add_missing (has_class ''container'') new_container hks) \<le> 1
     \<and> count_nodes (has_class ''container'') (childNodes c0) = 0
     \<and> wrapped_nodes True True False (childNodes c0) = 0
     \<and> sel_nodes True True (childNodes c0) = sel_nodes True False hks
     \<and> (find_nodes (has_class ''container'') hks = None \<longrightarrow> childNodes c0 = [])
     \<and> (find_nodes (has_class ''container'') hks \<noteq> None \<longrightarrow>
          find_nodes (has_class ''container'') hks = Some c0)"
proof (cases "find_nodes (has_class ''container'') hks")
  case None
  obtain cp where cp: "new_container = Element cp []" "has_class ''container'' cp"
    using new_container_shape by blast
  have "count_nodes (has_class ''container'') hks = 0" using None by (simp add: count_zero)
  then show ?thesis
    using None no_container_measures(2)[OF None, of True]
    by (simp add: add_missing_def find_nodes_append count_nodes_append cp)
next
  case (Some c)
  then show ?thesis
    using at_container(2)[OF Some assms(1)] assms
    by (simp add: add_missing_def)
qed

lemma is_div_upd [simp]: "is_div (upd_node P g k) = is_div k"
  by (cases k) auto

lemma filter_div_upd:
  "length (filter is_div (upd_nodes P g ks)) = length (filter is_div ks)"
  by (induction ks) auto

lemma wrapped_upd_lastChild:
  "wrapped_nodes True True False ks = 0 \<Longrightarrow>
   wrapped_nodes True True False (upd_nodes (has_tag ''div'') kids_lastChild ks) = 0"
proof -
  obtain sp where sp: "new_stub = Element sp []" "\<not> has_tag ''div'' sp"
    using new_stub_shape by blast
  show "wrapped_nodes True True False ks = 0 \<Longrightarrow> ?thesis"
  proof (induction ks)
    case Nil
    then show ?case by simp
  next
    case (Cons k ks)
    show ?case
    proof (cases k)
      case (Text t)
      then show ?thesis using Cons by simp
    next
      case (Element p js)
      then show ?thesis
        using Cons
        by (auto simp: wrapped_True count_zero kids_lastChild_def sp split: if_splits)
    qed
  qed
qed

lemma div_level:
  assumes "wrapped_nodes True True False cks = 0"
  shows "wrapped_nodes True True False (kids_innerDiv cks) = 0"
    and "length (filter is_div (kids_innerDiv cks)) = max 1 (length (filter is_div cks))"
    and "\<exists>d. find is_div (kids_innerDiv cks) = Some d \<and> lastChild d \<noteq> None"
proof -
  obtain dp where dp: "new_innerDiv = Element dp []" "has_tag ''div'' dp"
    using new_innerDiv_shape by blast
  let ?X = "add_missing (has_tag ''div'') new_innerDiv cks"
  have x: "wrapped_nodes True True False ?X = 0"
    using assms by (simp add: add_missing_def wrapped_nodes_append dp)
  show w: "wrapped_nodes True True False (kids_innerDiv cks) = 0"
    unfolding kids_innerDiv_def using x by (rule wrapped_upd_lastChild)
  have f: "find_nodes (has_tag ''div'') cks = find is_div cks"
    using assms by (rule find_children)
  have "(find is_div cks = None) = (filter is_div cks = [])"
    by (induction cks) auto
  then have "length (filter is_div ?X) = max 1 (length (filter is_div cks))"
    using f by (cases "filter is_div cks") (auto simp: add_missing_def dp)
  then show "length (filter is_div (kids_innerDiv cks)) = max 1 (length (filter is_div cks))"
    by (simp add: kids_innerDiv_def filter_div_upd)
  obtain m where m: "find_nodes (has_tag ''div'') (kids_innerDiv cks)
      = Some (map_kids kids_lastChild m)" "is_element m"
    unfolding kids_innerDiv_def
    using level_found[where cs = "[]" and g = kids_lastChild and c = new_innerDiv
        and P = "has_tag ''div''" and ks = cks] dp
    by blast
  then obtain mp mks where mm: "m = Element mp mks" by (cases m) auto
  have "find is_div (kids_innerDiv cks) = Some (map_kids kids_lastChild m)"
    using find_children[OF w] m(1) by simp
  moreover have "lastChild (map_kids kids_lastChild m) \<noteq> None"
    by (simp add: mm lastChild_def kids_lastChild_def)
  ultimately show "\<exists>d. find is_div (kids_innerDiv cks) = Some d \<and> lastChild d \<noteq> None"
    by blast
qed

lemma childNodes_map_kids: "is_element n \<Longrightarrow> childNodes (map_kids g n) = g (childNodes n)"
  by (cases n) auto

lemma unambiguous_ensured_root:
  assumes "is_element root" "unambiguous (Some root)"
  shows "\<exists>cks. wrapped_nodes True True False cks = 0
     \<and> sel_node False False root = filter is_div cks
     \<and> sel_node False False (ensured_root root) = filter is_div (kids_innerDiv cks)
     \<and> unambiguous (Some (ensured_root root))"
proof -
  obtain h0 where h0: "find_node (has_id HEADER_ID) (with_header root) = Some h0"
    "count_node (has_id HEADER_ID) (with_header root) \<le> 1"
    "count_nodes (has_class ''container'') (childNodes h0) \<le> 1"
    "wrapped_nodes True False False (childNodes h0) = 0"
    "sel_nodes True False (childNodes h0) = sel_node False False root"
    using header_level[OF assms] by blast
  let ?X = "add_missing (has_class ''container'') new_container (childNodes h0)"
  obtain c0 where c0: "find_nodes (has_class ''container'') ?X = Some c0"
    "count_nodes (has_class ''container'') ?X \<le> 1"
    "count_nodes (has_class ''container'') (childNodes c0) = 0"
    "wrapped_nodes True True False (childNodes c0) = 0"
    "sel_nodes True True (childNodes c0) = sel_nodes True False (childNodes h0)"
    using container_level[OF h0(3,4)] by blast
  let ?cks = "childNodes c0"
  let ?e = "ensured_root root"
  have eh: "is_element h0" using h0(1) by (rule find_is_element(1))
  have ec: "is_element c0" using c0(1) by (rule find_is_element(2))
  have ids: "count_node (has_id HEADER_ID) ?e \<le> 1"
    unfolding ensured_root_def
    using h0(2) count_upd_same(1)[where g = kids_container, OF count_kids_container_id]
    by simp
  have fh: "find_node (has_id HEADER_ID) ?e = Some (map_kids kids_container h0)"
    by (simp add: ensured_root_def find_upd_val h0(1))
  have kh: "childNodes (map_kids kids_container h0)
      = upd_nodes (has_class ''container'') kids_innerDiv ?X"
    using eh by (simp add: childNodes_map_kids kids_container_def)
  note top = at_header(1)[OF fh ids, unfolded kh]
  have cc: "count_nodes (has_class ''container'')
      (upd_nodes (has_class ''container'') kids_innerDiv ?X) \<le> 1"
    using c0(2) count_upd_same(2)[where g = kids_innerDiv, OF count_kids_innerDiv_same(2)]
    by simp
  have fc: "find_nodes (has_class ''container'')
      (upd_nodes (has_class ''container'') kids_innerDiv ?X) = Some (map_kids kids_innerDiv c0)"
    by (simp add: find_upd_val c0(1))
  have kc: "childNodes (map_kids kids_innerDiv c0) = kids_innerDiv ?cks"
    using ec by (simp add: childNodes_map_kids)
  note mid = at_container(2)[OF fc cc, unfolded kc]
  have w: "wrapped_nodes True True False (kids_innerDiv ?cks) = 0"
    using c0(4) by (rule div_level(1))
  have 1: "sel_node False False root = filter is_div ?cks"
    using h0(5) c0(5) sel_children[OF c0(3)] by simp
  have 2: "sel_node False False ?e = filter is_div (kids_innerDiv ?cks)"
    using top mid sel_children[of "kids_innerDiv ?cks"] by simp
  have 3: "unambiguous (Some ?e)"
    using ids top mid cc w by (simp add: unambiguous_def containers_True)
  show ?thesis using c0(4) 1 2 3 by blast
qed

lemma unambiguous_call:
  assumes "wf_document doc" "doc \<noteq> None" "unambiguous doc"
  shows "unambiguous (ensured doc)"
    and "stub_reachable (ensured doc)"
    and "length (querySelectorAll_SEL (ensured doc)) = max 1 (length (querySelectorAll_SEL doc))"
proof -
  from assms(1,2) obtain root where d: "doc = Some root" "is_element root"
    by (cases doc) (auto simp: wf_document_def)
  obtain cks where c: "wrapped_nodes True True False cks = 0"
    "sel_node False False root = filter is_div cks"
    "sel_node False False (ensured_root root) = filter is_div (kids_innerDiv cks)"
    "unambiguous (Some (ensured_root root))"
    using unambiguous_ensured_root[OF d(2)] assms(3) d(1) by blast
  show "unambiguous (ensured doc)" using c(4) by (simp add: d(1) ensured_def)
  show "length (querySelectorAll_SEL (ensured doc)) = max 1 (length (querySelectorAll_SEL doc))"
    using div_level(2)[OF c(1)] by (simp add: d(1) ensured_def querySelectorAll_SEL_def c(2,3))
  obtain m where m: "find is_div (kids_innerDiv cks) = Some m" "lastChild m \<noteq> None"
    using div_level(3)[OF c(1)] by blast
  have "querySelector_SEL (ensured doc) = find is_div (kids_innerDiv cks)"
    by (simp add: querySelector_SEL_def querySelectorAll_SEL_def d(1) ensured_def c(3)
        hd_filter_find)
  then show "stub_reachable (ensured doc)"
    using m by (simp add: stub_reachable_def)
qed

lemma unambiguous_call_once:
  assumes "wf_document doc" "doc \<noteq> None" "unambiguous doc"
    "length (querySelectorAll_SEL doc) \<le> 1"
  shows "stub_reachable_once (ensured doc)"
proof -
  have l: "length (querySelectorAll_SEL (ensured doc)) = 1"
    using unambiguous_call(3)[OF assms(1-3)] assms(4) by simp
  then obtain m where m: "querySelectorAll_SEL (ensured doc) = [m]"
    by (cases "querySelectorAll_SEL (ensured doc)") auto
  have "stub_reachable (ensured doc)" using assms(1-3) by (rule unambiguous_call(2))
  then show ?thesis
    by (simp add: stub_reachable_def stub_reachable_once_def querySelector_SEL_def m)
qed

lemma unambiguous_reachable_found:
  assumes "unambiguous doc" "stub_reachable doc"
  shows "lookups_succeed doc"
proof -
  from assms(2) obtain root where d: "doc = Some root"
    by (cases doc) (auto simp: stub_reachable_def querySelector_SEL_def querySelectorAll_SEL_def)
  have ne: "sel_node False False root \<noteq> []"
    using assms(2)
    by (auto simp: d stub_reachable_def querySelector_SEL_def querySelectorAll_SEL_def
        split: list.splits)
  then have el: "is_element root" by (cases root) auto
  have fh: "find_node (has_id HEADER_ID) root \<noteq> None"
    using ne sel_no_header(1)[of root] by auto
  obtain h0 where h0: "find_node (has_id HEADER_ID) root = Some h0"
    "count_nodes (has_class ''container'') (childNodes h0) \<le> 1"
    "wrapped_nodes True False False (childNodes h0) = 0"
    "sel_nodes True False (childNodes h0) = sel_node False False root"
    using header_level[OF el] assms(1) fh by (auto simp: d)
  have fc: "find_nodes (has_class ''container'') (childNodes h0) \<noteq> None"
    using ne h0(4) no_container_measures(2)[of "childNodes h0" True] by auto
  obtain c0 where c0: "find_nodes (has_class ''container'') (childNodes h0) = Some c0"
    "count_nodes (has_class ''container'') (childNodes c0) = 0"
    "wrapped_nodes True True False (childNodes c0) = 0"
    "sel_nodes True True (childNodes c0) = sel_nodes True False (childNodes h0)"
    using container_level[OF h0(2,3)] fc by auto
  have s: "sel_node False False root = filter is_div (childNodes c0)"
    using h0(4) c0(4) sel_children[OF c0(2)] by simp
  have "querySelector_SEL doc = find is_div (childNodes c0)"
    by (simp add: querySelector_SEL_def querySelectorAll_SEL_def d s hd_filter_find)
  then have q: "querySelector_SEL doc = find_nodes (has_tag ''div'') (childNodes c0)"
    using find_children[OF c0(3)] by simp
  show ?thesis
    using assms(2) h0(1) c0(1) q
    by (auto simp: lookups_succeed_def getElementById_def d stub_reachable_def
        split: option.splits)
qed

lemma unambiguous_fixed:
  "unambiguous doc \<Longrightarrow> stub_reachable doc \<Longrightarrow> ensured doc = doc"
  using unambiguous_reachable_found lookups_succeed_unchanged by blast

lemma no_header_unambiguous:
  "getElementById HEADER_ID doc = None \<Longrightarrow>
   unambiguous doc \<and> querySelectorAll_SEL doc = []"
  by (cases doc)
     (simp_all add: getElementById_def unambiguous_def querySelectorAll_SEL_def
        no_header_measures sel_no_header count_zero[symmetric])

lemma remove_first_less:
  "count_nodes Q (remove_first P ks) \<le> count_nodes Q ks"
  "containers_nodes a (remove_first P ks) \<le> containers_nodes a ks"
  "wrapped_nodes a b w (remove_first P ks) \<le> wrapped_nodes a b w ks"
  "length (sel_nodes a b (remove_first P ks)) \<le> length (sel_nodes a b ks)"
proof -
  show "count_nodes Q (remove_first P ks) \<le> count_nodes Q ks"
    by (induction P ks rule: remove_first.induct) (auto simp: le_SucI trans_le_add2)
  show "containers_nodes a (remove_first P ks) \<le> containers_nodes a ks"
    by (induction P ks arbitrary: a rule: remove_first.induct)
       (auto simp: le_SucI trans_le_add2)
  show "wrapped_nodes a b w (remove_first P ks) \<le> wrapped_nodes a b w ks"
    by (induction P ks arbitrary: a b w rule: remove_first.induct)
       (auto simp: le_SucI trans_le_add2)
  show "length (sel_nodes a b (remove_first P ks)) \<le> length (sel_nodes a b ks)"
    by (induction P ks arbitrary: a b rule: remove_first.induct)
       (auto simp: le_SucI trans_le_add2)
qed

lemma removal_keeps:
  assumes "wf_document doc" "doc \<noteq> None" "unambiguous doc"
    "length (querySelectorAll_SEL doc) \<le> 1"
  shows "wf_document (remove_in_document P doc) \<and> remove_in_document P doc \<noteq> None
    \<and> unambiguous (remove_in_document P doc)
    \<and> length (querySelectorAll_SEL (remove_in_document P doc)) \<le> 1"
proof -
  from assms(1,2) obtain p ks where d: "doc = Some (Element p ks)"
    by (cases doc; cases "the doc") (auto simp: wf_document_def)
  let ?a = "has_id HEADER_ID p"
  have 1: "count_nodes (has_id HEADER_ID) (remove_first P ks) \<le> count_nodes (has_id HEADER_ID) ks"
    by (rule remove_first_less(1))
  have 2: "containers_nodes ?a (remove_first P ks) \<le> containers_nodes ?a ks"
    by (rule remove_first_less(2))
  have 3: "wrapped_nodes ?a False False (remove_first P ks) \<le> wrapped_nodes ?a False False ks"
    by (rule remove_first_less(3))
  have 4: "length (sel_nodes ?a False (remove_first P ks)) \<le> length (sel_nodes ?a False ks)"
    by (rule remove_first_less(4))
  show ?thesis
    using assms(3,4) 1 2 3 4
    by (auto simp: d wf_document_def unambiguous_def querySelectorAll_SEL_def)
qed

lemma wf_ensured:
  "wf_document doc \<Longrightarrow> doc \<noteq> None \<Longrightarrow> wf_document (ensured doc) \<and> ensured doc \<noteq> None"
proof (cases doc)
  case None
  then show "doc \<noteq> None \<Longrightarrow> ?thesis" by simp
next
  case (Some root)
  assume "wf_document doc"
  then obtain p ks where "root = Element p ks" using Some by (cases root) (auto simp: wf_document_def)
  then show ?thesis using Some
    by (simp add: ensured_def wf_document_def ensured_root_def)
qed

lemma run_keeps:
  "settled (document s) \<Longrightarrow> settled (document (run as s))"
proof (induction as arbitrary: s)
  case Nil
  then show ?case by simp
next
  case (Cons a as)
  show ?case
  proof (cases a)
    case Call
    have "settled (ensured (document s))"
      using Cons.prems unambiguous_call(1,3)[of "document s"] wf_ensured[of "document s"]
      by (simp add: settled_def)
    then show ?thesis using Cons.IH[of "snd (ensureStub s)"] Call
      by (simp add: ensureStub_document)
  next
    case (Removal P)
    have "settled (remove_in_document P (document s))"
      using Cons.prems removal_keeps[of "document s" P] by (simp add: settled_def)
    then show ?thesis
      using Cons.IH[of "s\<lparr>document := remove_in_document P (document s)\<rparr>"] Removal
      by simp
  qed
qed

lemma run_append: "run (as @ bs) s = run bs (run as s)"
proof (induction as arbitrary: s)
  case Nil
  then show ?case by simp
next
  case (Cons a as)
  then show ?case by (cases a) simp_all
qed

lemma run_then_call:
  assumes "settled (document s)"
  shows "stub_reachable_once (document (run (as @ [Call]) s))"
proof -
  have "settled (document (run as s))" using assms by (rule run_keeps)
  then have "stub_reachable_once (ensured (document (run as s)))"
    using unambiguous_call_once by (simp add: settled_def)
  then show ?thesis by (simp add: run_append ensureStub_document)
qed

subsection \<open>The sample documents and pages\<close>

text \<open>
  Facts about the samples, by evaluation. The last two: after the inner div or the
  marker alone is removed, neither the observer's callback nor the periodic check
  changes the page.
\<close>

lemma cold_document_facts:
  "wf_document cold_document" "document_body cold_document = None"
  by (simp_all add: cold_document_def elem_def wf_document_def document_body_def)

lemma plain_document_facts:
  "document_body plain_document \<noteq> None" "getElementById HEADER_ID plain_document = None"
  by (simp_all add: plain_document_def elem_def document_body_def getElementById_def
      has_id_def HEADER_ID_def)

lemma plain_document_count: "doc_count plain_document = 4"
  by (simp add: doc_count_def plain_document_def elem_def)

lemma two_divs_chain: "lookups_succeed two_divs_document"
  by (simp add: two_divs_document_def elem_def lookups_succeed_def getElementById_def has_id_def
      HEADER_ID_def has_class_def classList_def has_tag_def lastChild_def is_ws_def)

lemma two_divs_matches: "length (querySelectorAll_SEL two_divs_document) = 2"
  by (simp add: two_divs_document_def elem_def querySelectorAll_SEL_def has_id_def
      HEADER_ID_def has_class_def classList_def has_tag_def is_ws_def)

lemma nested_div_chain: "lookups_succeed nested_div_document"
  by (simp add: nested_div_document_def elem_def lookups_succeed_def getElementById_def has_id_def
      HEADER_ID_def has_class_def classList_def has_tag_def lastChild_def is_ws_def)

lemma join_button_facts:
  "matches_button \<lparr>localName = ''button'', elem_id = [], className = [], cssText = [], attributes = []\<rparr>"
  "js_includes (textContent join_button) ''Join session''"
  "textContent join_button = ''Join session''"
  by (simp_all add: matches_button_def join_button_def elem_def)

lemmas eval_defs =
  plain_document_def elem_def has_id_def HEADER_ID_def has_class_def classList_def has_tag_def
  is_ws_def new_header_def new_container_def new_innerDiv_def new_stub_def createElement_def
  kids_container_def kids_innerDiv_def kids_lastChild_def add_missing_def
  querySelector_SEL_def querySelectorAll_SEL_def stub_reachable_def stub_reachable_once_def
  getElementById_def lastChild_def

text \<open>
  Two documents that are not unambiguous. On \<open>nested_div_document\<close> the lookups of the
  script succeed and the selector matches nothing. On \<open>two_containers_document\<close> the
  selector matches once, in the second container, and the script follows the first: a
  call adds an inner div and a marker there, and the selector then matches twice.
\<close>

lemma nested_div_ambiguous:
  "\<not> unambiguous nested_div_document \<and> querySelectorAll_SEL nested_div_document = []"
  by (simp add: nested_div_document_def unambiguous_def elem_def querySelectorAll_SEL_def
      has_id_def HEADER_ID_def has_class_def classList_def has_tag_def is_ws_def)

lemma two_containers_duplicated:
  "\<not> unambiguous two_containers_document
   \<and> stub_reachable_once two_containers_document
   \<and> length (querySelectorAll_SEL (ensured two_containers_document)) = 2
   \<and> doc_count (ensured two_containers_document) = doc_count two_containers_document + 2"
  by (simp add: two_containers_document_def unambiguous_def ensured_def ensured_root_def
      doc_count_def eval_defs)

lemma stubbed_page_document:
  "document stubbed_page
     = Some (Element \<lparr>localName = ''html'', elem_id = [], className = [], cssText = [], attributes = []\<rparr>
         [elem ''head'' [],
          Element \<lparr>localName = ''body'', elem_id = [], className = [], cssText = [], attributes = []\<rparr>
            [full_header, Text ''hello'']])"
  by (simp add: stubbed_page_def ensureStub_document fresh_page_def ensured_def ensured_root_def
      full_header_def eval_defs)

lemma stubbed_page_ensured: "stubEnsured stubbed_page"
  using ensureStub_true[of "fresh_page plain_document Complete"]
    body_wf[OF plain_document_facts(1)]
  by (simp add: stubbed_page_def fresh_page_def)

lemma stubbed_page_reachable: "stub_reachable_once (document stubbed_page)"
  using fresh_reachable_once[of plain_document] body_wf[OF plain_document_facts(1)]
    plain_document_facts(2)
  by (simp add: stubbed_page_def ensureStub_document fresh_page_def)

lemma innerDiv_removal_not_healed:
  "removedNodes (removal_record is_innerDiv) \<noteq> []
   \<and> \<not> stub_reachable (document (without is_innerDiv))
   \<and> mutation_callback [removal_record is_innerDiv] (without is_innerDiv) = without is_innerDiv
   \<and> periodic_check (without is_innerDiv) = without is_innerDiv"
proof -
  have d: "document (without is_innerDiv)
     = Some (Element \<lparr>localName = ''html'', elem_id = [], className = [], cssText = [], attributes = []\<rparr>
         [elem ''head'' [],
          Element \<lparr>localName = ''body'', elem_id = [], className = [], cssText = [], attributes = []\<rparr>
            [Element \<lparr>localName = ''div'', elem_id = ''home-header2'', className = [],
               cssText = ''display: none !important; visibility: hidden !important; position: absolute; left: -9999px;'',
               attributes = [(''data-legacy-guard'', ''v4'')]\<rparr>
               [Element \<lparr>localName = ''div'', elem_id = [], className = ''container'',
                  cssText = ''display: none !important;'', attributes = []\<rparr> []],
             Text ''hello'']])"
    by (simp add: without_def stubbed_page_document full_header_def is_innerDiv_def eval_defs)
  have e: "stubEnsured (without is_innerDiv)"
    using stubbed_page_ensured by (simp add: without_def)
  have r: "removedNodes (removal_record is_innerDiv)
     = [Element \<lparr>localName = ''div'', elem_id = [], className = [],
               cssText = ''display: none !important;'', attributes = []\<rparr>
             [new_stub]]"
    by (simp add: removal_record_def stubbed_page_document full_header_def is_innerDiv_def eval_defs)
  have t: "mtype (removal_record is_innerDiv) = ChildList"
    by (simp add: removal_record_def)
  have 1: "\<not> stub_reachable (document (without is_innerDiv))"
    by (simp add: d eval_defs)
  have 2: "mutation_callback [removal_record is_innerDiv] (without is_innerDiv) = without is_innerDiv"
    by (simp add: mutation_callback_def r t eval_defs)
  have 3: "periodic_check (without is_innerDiv) = without is_innerDiv"
    by (simp add: periodic_check_def e d eval_defs)
  show ?thesis using 1 2 3 by (simp add: r)
qed

lemma marker_removal_not_healed:
  "removedNodes (removal_record (has_class ''notification-badge-stub'')) = [new_stub]
   \<and> \<not> stub_reachable (document (without (has_class ''notification-badge-stub'')))
   \<and> mutation_callback [removal_record (has_class ''notification-badge-stub'')]
         (without (has_class ''notification-badge-stub''))
       = without (has_class ''notification-badge-stub'')
   \<and> periodic_check (without (has_class ''notification-badge-stub''))
       = without (has_class ''notification-badge-stub'')"
proof -
  let ?P = "has_class ''notification-badge-stub''"
  have d: "document (without ?P)
     = Some (Element \<lparr>localName = ''html'', elem_id = [], className = [], cssText = [], attributes = []\<rparr>
         [elem ''head'' [],
          Element \<lparr>localName = ''body'', elem_id = [], className = [], cssText = [], attributes = []\<rparr>
            [Element \<lparr>localName = ''div'', elem_id = ''home-header2'', className = [],
               cssText = ''display: none !important; visibility: hidden !important; position: absolute; left: -9999px;'',
               attributes = [(''data-legacy-guard'', ''v4'')]\<rparr>
               [Element \<lparr>localName = ''div'', elem_id = [], className = ''container'',
                  cssText = ''display: none !important;'', attributes = []\<rparr>
                  [Element \<lparr>localName = ''div'', elem_id = [], className = [],
                     cssText = ''display: none !important;'', attributes = []\<rparr> []]],
             Text ''hello'']])"
    by (simp add: without_def stubbed_page_document full_header_def eval_defs)
  have e: "stubEnsured (without ?P)"
    using stubbed_page_ensured by (simp add: without_def)
  have r: "removedNodes (removal_record ?P) = [new_stub]"
    by (simp add: removal_record_def stubbed_page_document full_header_def eval_defs)
  have t: "mtype (removal_record ?P) = ChildList"
    by (simp add: removal_record_def)
  have 1: "\<not> stub_reachable (document (without ?P))"
    by (simp add: d eval_defs)
  have 2: "mutation_callback [removal_record ?P] (without ?P) = without ?P"
    by (simp add: mutation_callback_def r t eval_defs)
  have 3: "periodic_check (without ?P) = without ?P"
    by (simp add: periodic_check_def e d eval_defs)
  show ?thesis using 1 2 3 by (simp add: r)
qed

lemma sample_meeting_zoom: "js_includes sample_meeting ''zoom.us''"
  by (simp add: sample_meeting_def)

section \<open>C1: repeated calls\<close>

text \<open>
  Claim C1, as amended. For every page, \<open>n \<ge> 1\<close> calls of \<open>ensureStub\<close> in a row
  leave the document that one call leaves. On every unambiguous document with a
  document element, whatever mutations produced it, the stub is reachable through the
  guarded selector after the calls, and the selector matches as many elements as it did
  before them, or one when it matched none; so it matches exactly one element, which
  has a last child, when it matched at most one before. A document without the header
  is such a document, and removing nodes from such a document leaves one: through any
  sequence of calls and of removals by other scripts that ends with a call, the
  selector matches exactly one element afterwards. On an unambiguous document on which
  the stub is already reachable through the selector, a call creates no node: the
  document, and so its node count, is unchanged.
\<close>

theorem ensureStub_idempotent:
  "(1 \<le> n \<longrightarrow> document (ensureStub_times n s) = document (snd (ensureStub s)))
   \<and> (1 \<le> n \<and> wf_document (document s) \<and> document s \<noteq> None
        \<and> unambiguous (document s) \<longrightarrow>
          stub_reachable (document (ensureStub_times n s))
          \<and> length (querySelectorAll_SEL (document (ensureStub_times n s)))
              = max 1 (length (querySelectorAll_SEL (document s)))
          \<and> (length (querySelectorAll_SEL (document s)) \<le> 1 \<longrightarrow>
                stub_reachable_once (document (ensureStub_times n s))))
   \<and> (getElementById HEADER_ID (document s) = None \<longrightarrow>
          unambiguous (document s) \<and> querySelectorAll_SEL (document s) = [])
   \<and> (wf_document (document s) \<and> document s \<noteq> None \<and> unambiguous (document s)
        \<and> length (querySelectorAll_SEL (document s)) \<le> 1 \<longrightarrow>
          stub_reachable_once (document (run (acts @ [Call]) s)))
   \<and> (unambiguous (document s) \<and> stub_reachable (document s) \<longrightarrow>
          document (snd (ensureStub s)) = document s
          \<and> doc_count (document (snd (ensureStub s))) = doc_count (document s))"
proof (intro conjI impI)
  assume "1 \<le> n"
  then obtain m where "n = Suc m" by (cases n) auto
  then show "document (ensureStub_times n s) = document (snd (ensureStub s))"
    by (simp only: ensureStub_times_document ensureStub_document)
next
  assume a: "1 \<le> n \<and> wf_document (document s) \<and> document s \<noteq> None
        \<and> unambiguous (document s)"
  then obtain m where "n = Suc m" by (cases n) auto
  then have d: "document (ensureStub_times n s) = ensured (document s)"
    by (simp only: ensureStub_times_document)
  show "stub_reachable (document (ensureStub_times n s))"
    using a unambiguous_call(2) by (simp add: d)
  show "length (querySelectorAll_SEL (document (ensureStub_times n s)))
      = max 1 (length (querySelectorAll_SEL (document s)))"
    using a unambiguous_call(3) by (simp add: d)
  assume "length (querySelectorAll_SEL (document s)) \<le> 1"
  then show "stub_reachable_once (document (ensureStub_times n s))"
    using a unambiguous_call_once by (simp add: d)
next
  assume "getElementById HEADER_ID (document s) = None"
  then show "unambiguous (document s)" "querySelectorAll_SEL (document s) = []"
    using no_header_unambiguous by blast+
next
  assume "wf_document (document s) \<and> document s \<noteq> None \<and> unambiguous (document s)
        \<and> length (querySelectorAll_SEL (document s)) \<le> 1"
  then have "settled (document s)" by (simp add: settled_def)
  then show "stub_reachable_once (document (run (acts @ [Call]) s))"
    by (rule run_then_call)
next
  assume "unambiguous (document s) \<and> stub_reachable (document s)"
  then have "ensured (document s) = document s" using unambiguous_fixed by blast
  then show "document (snd (ensureStub s)) = document s"
    "doc_count (document (snd (ensureStub s))) = doc_count (document s)"
    by (simp_all add: ensureStub_document)
qed

text \<open>
  Witness and counterexample for C1. Three calls on the plain document; one call on
  the script's own chain after another script has removed its container; calls
  between the removal of the container and of the inner div; and \<open>two_divs_document\<close>,
  where the header's container already holds two divs: the document is unambiguous, the
  stub is reachable, a call changes nothing, and the guarded selector matches twice
  before and after it.
\<close>

theorem ensureStub_idempotent_witness:
  "1 \<le> (3::nat) \<and> wf_document plain_document \<and> plain_document \<noteq> None
   \<and> getElementById HEADER_ID plain_document = None \<and> unambiguous plain_document
   \<and> length (querySelectorAll_SEL plain_document) \<le> 1
   \<and> stub_reachable_once (document (ensureStub_times 3 (fresh_page plain_document Complete)))
   \<and> unambiguous (document (without (has_class ''container'')))
   \<and> querySelectorAll_SEL (document (without (has_class ''container''))) = []
   \<and> stub_reachable_once
        (document (ensureStub_times 1 (without (has_class ''container''))))
   \<and> stub_reachable_once
        (document (run ([Call, Removal (has_class ''container''), Call, Removal is_innerDiv]
                         @ [Call])
                    (fresh_page plain_document Complete)))
   \<and> unambiguous two_divs_document \<and> stub_reachable two_divs_document
   \<and> document (snd (ensureStub (fresh_page two_divs_document Complete))) = two_divs_document
   \<and> length (querySelectorAll_SEL
        (document (ensureStub_times 1 (fresh_page two_divs_document Complete)))) = 2"
proof -
  have p: "document (fresh_page plain_document Complete) = plain_document"
    and t: "document (fresh_page two_divs_document Complete) = two_divs_document"
    by (simp_all add: fresh_page_def)
  have w: "wf_document plain_document" "plain_document \<noteq> None"
    using body_wf[OF plain_document_facts(1)] by simp_all
  note free = ensureStub_idempotent[of 3 "fresh_page plain_document Complete",
      THEN conjunct2, THEN conjunct2, THEN conjunct1, unfolded p, rule_format,
      OF plain_document_facts(2)]
  have u: "unambiguous plain_document" "length (querySelectorAll_SEL plain_document) \<le> 1"
    using free by simp_all
  have a: "stub_reachable_once (document (ensureStub_times 3 (fresh_page plain_document Complete)))"
    using ensureStub_idempotent[of 3 "fresh_page plain_document Complete",
        THEN conjunct2, THEN conjunct1] w u by (simp add: p)
  have dw: "document (without (has_class ''container''))
     = Some (Element \<lparr>localName = ''html'', elem_id = [], className = [], cssText = [], attributes = []\<rparr>
         [elem ''head'' [],
          Element \<lparr>localName = ''body'', elem_id = [], className = [], cssText = [], attributes = []\<rparr>
            [Element \<lparr>localName = ''div'', elem_id = ''home-header2'', className = [],
               cssText = ''display: none !important; visibility: hidden !important; position: absolute; left: -9999px;'',
               attributes = [(''data-legacy-guard'', ''v4'')]\<rparr> [],
             Text ''hello'']])"
    by (simp add: without_def stubbed_page_document full_header_def eval_defs)
  have uw: "unambiguous (document (without (has_class ''container'')))"
    "querySelectorAll_SEL (document (without (has_class ''container''))) = []"
    "wf_document (document (without (has_class ''container'')))"
    by (simp_all add: dw unambiguous_def wf_document_def eval_defs)
  have b: "stub_reachable_once
        (document (ensureStub_times 1 (without (has_class ''container''))))"
    using ensureStub_idempotent[of 1 "without (has_class ''container'')",
        THEN conjunct2, THEN conjunct1] uw
    by (simp add: dw)
  have c: "stub_reachable_once
        (document (run ([Call, Removal (has_class ''container''), Call, Removal is_innerDiv]
                         @ [Call])
                    (fresh_page plain_document Complete)))"
    using ensureStub_idempotent[of 1 "fresh_page plain_document Complete"
        "[Call, Removal (has_class ''container''), Call, Removal is_innerDiv]",
        THEN conjunct2, THEN conjunct2, THEN conjunct2, THEN conjunct1] w u
    by (simp only: p simp_thms)
  have ut: "unambiguous two_divs_document" "stub_reachable two_divs_document"
    "wf_document two_divs_document" "two_divs_document \<noteq> None"
    by (simp_all add: two_divs_document_def unambiguous_def wf_document_def elem_def has_id_def
        HEADER_ID_def has_class_def classList_def has_tag_def is_ws_def stub_reachable_def
        querySelector_SEL_def querySelectorAll_SEL_def lastChild_def)
  have d: "document (snd (ensureStub (fresh_page two_divs_document Complete))) = two_divs_document"
    using ensureStub_idempotent[of 1 "fresh_page two_divs_document Complete",
        THEN conjunct2, THEN conjunct2, THEN conjunct2, THEN conjunct2] ut
    by (simp add: t)
  have e: "length (querySelectorAll_SEL
        (document (ensureStub_times 1 (fresh_page two_divs_document Complete)))) = 2"
    using ensureStub_idempotent[of 1 "fresh_page two_divs_document Complete",
        THEN conjunct2, THEN conjunct1] ut two_divs_matches
    by (simp add: t)
  show ?thesis
    using w u a uw(1,2) b c ut(1,2) d e plain_document_facts(2) by simp
qed

theorem ensureStub_idempotent_counterexample:
  "length (querySelectorAll_SEL
     (document (ensureStub_times 1 (fresh_page two_divs_document Complete)))) = 2
   \<and> \<not> stub_reachable_once
     (document (ensureStub_times 1 (fresh_page two_divs_document Complete)))"
proof -
  have "document (ensureStub_times 1 (fresh_page two_divs_document Complete)) = two_divs_document"
    using lookups_succeed_unchanged[OF two_divs_chain]
    by (simp add: ensureStub_document fresh_page_def)
  moreover have "\<not> stub_reachable_once two_divs_document"
    using two_divs_matches
    by (auto simp: stub_reachable_once_def split: list.splits)
  ultimately show ?thesis using two_divs_matches by simp
qed

section \<open>C2: healing after a removal\<close>

text \<open>
  Claim C2, as amended. Let the header be the only element with its id and not the
  document element. After it is removed, the stub is not reachable; the observer's
  callback, given a batch with a child-list record that lists the removed header, and
  the periodic check each restore it: the guarded selector then matches exactly one
  element, which has a last child. A batch in which no child-list record lists a
  removed node that is or contains the header leaves the page as it is, and so does the
  periodic check while \<open>stubEnsured\<close> is set and the header is in the document: the
  removal of the container, the inner div or the marker alone is not repaired by them.
\<close>

theorem header_removal_healed:
  "(document s = Some (Element p ks) \<and> \<not> has_id HEADER_ID p
    \<and> count_nodes (has_id HEADER_ID) ks = 1
    \<and> find_nodes (has_id HEADER_ID) ks = Some h
    \<and> s' = s\<lparr>document := Some (Element p (remove_first (has_id HEADER_ID) ks))\<rparr>
    \<and> m \<in> set mutations \<and> mtype m = ChildList \<and> h \<in> set (removedNodes m)
    \<longrightarrow>
      \<not> stub_reachable (document s')
      \<and> stub_reachable_once (document (mutation_callback mutations s'))
      \<and> stub_reachable_once (document (periodic_check s')))
   \<and> (\<not> list_ex (\<lambda>m. mtype m = ChildList \<and> list_ex removed_header (removedNodes m)) mutations
        \<longrightarrow> mutation_callback mutations s = s)
   \<and> (stubEnsured s \<and> getElementById HEADER_ID (document s) \<noteq> None
        \<longrightarrow> periodic_check s = s)"
proof (intro conjI impI)
  assume a: "document s = Some (Element p ks) \<and> \<not> has_id HEADER_ID p
    \<and> count_nodes (has_id HEADER_ID) ks = 1
    \<and> find_nodes (has_id HEADER_ID) ks = Some h
    \<and> s' = s\<lparr>document := Some (Element p (remove_first (has_id HEADER_ID) ks))\<rparr>
    \<and> m \<in> set mutations \<and> mtype m = ChildList \<and> h \<in> set (removedNodes m)"
  let ?d = "Some (Element p (remove_first (has_id HEADER_ID) ks))"
  have d: "document s' = ?d" using a by simp
  have gone: "getElementById HEADER_ID ?d = None"
    using a unique_removed[of "has_id HEADER_ID" ks h] by (simp add: getElementById_def)
  have wf: "wf_document ?d" "?d \<noteq> None" by (simp_all add: wf_document_def)
  have once: "stub_reachable_once (ensured ?d)"
    using wf gone by (rule fresh_reachable_once)
  have "removed_header h" using a found_removed_header(2) by blast
  then have "list_ex removed_header (removedNodes m)"
    using a by (auto simp: list_ex_iff)
  then have seen: "list_ex (\<lambda>m. mtype m = ChildList \<and> list_ex removed_header (removedNodes m)) mutations"
    using a by (auto simp: list_ex_iff)
  show "\<not> stub_reachable (document s')"
    using gone by (simp add: d stub_reachable_def fresh_not_reachable)
  show "stub_reachable_once (document (mutation_callback mutations s'))"
    using once seen by (simp add: d mutation_callback_document)
  show "stub_reachable_once (document (periodic_check s'))"
    using once gone by (simp add: d periodic_check_document)
next
  assume "\<not> list_ex (\<lambda>m. mtype m = ChildList \<and> list_ex removed_header (removedNodes m)) mutations"
  then show "mutation_callback mutations s = s"
    by (simp add: mutation_callback_def scan_mutations_none)
next
  assume "stubEnsured s \<and> getElementById HEADER_ID (document s) \<noteq> None"
  then show "periodic_check s = s"
    by (auto simp: periodic_check_def)
qed

text \<open>
  Witness and counterexample for C2, on the plain document after a first call. With
  the header removed, the callback and the periodic check each restore the stub. With
  the container removed, the callback is given the removal record and the periodic
  check runs, and both leave the page as it is, the stub unreachable.
\<close>

theorem header_removal_healed_witness:
  "document stubbed_page
     = Some (Element \<lparr>localName = ''html'', elem_id = [], className = [], cssText = [], attributes = []\<rparr>
         [elem ''head'' [],
          Element \<lparr>localName = ''body'', elem_id = [], className = [], cssText = [], attributes = []\<rparr>
            [full_header, Text ''hello'']])
   \<and> removal_record (has_id HEADER_ID) = \<lparr>mtype = ChildList, removedNodes = [full_header]\<rparr>
   \<and> stub_reachable_once (document stubbed_page)
   \<and> \<not> stub_reachable (document (without (has_id HEADER_ID)))
   \<and> stub_reachable_once
        (document (mutation_callback [removal_record (has_id HEADER_ID)] (without (has_id HEADER_ID))))
   \<and> stub_reachable_once (document (periodic_check (without (has_id HEADER_ID))))
   \<and> \<not> list_ex (\<lambda>m. mtype m = ChildList \<and> list_ex removed_header (removedNodes m))
         [\<lparr>mtype = ChildList, removedNodes = [new_stub]\<rparr>]
   \<and> mutation_callback [\<lparr>mtype = ChildList, removedNodes = [new_stub]\<rparr>] stubbed_page
       = stubbed_page
   \<and> stubEnsured stubbed_page
   \<and> getElementById HEADER_ID (document stubbed_page) \<noteq> None
   \<and> periodic_check stubbed_page = stubbed_page"
proof -
  let ?hp = "\<lparr>localName = ''html'', elem_id = [], className = [], cssText = [], attributes = []\<rparr>"
  let ?ks = "[elem ''head'' [],
          Element \<lparr>localName = ''body'', elem_id = [], className = [], cssText = [], attributes = []\<rparr>
            [full_header, Text ''hello'']]"
  have f: "find_nodes (has_id HEADER_ID) ?ks = Some full_header"
    by (simp add: full_header_def eval_defs)
  have c: "count_nodes (has_id HEADER_ID) ?ks = 1"
    by (simp add: full_header_def eval_defs)
  have nh: "\<not> has_id HEADER_ID ?hp"
    by (simp add: has_id_def HEADER_ID_def)
  have r: "removal_record (has_id HEADER_ID) = \<lparr>mtype = ChildList, removedNodes = [full_header]\<rparr>"
    unfolding removal_record_def stubbed_page_document root_children.simps f by simp
  have w: "without (has_id HEADER_ID)
      = stubbed_page\<lparr>document := Some (Element ?hp (remove_first (has_id HEADER_ID) ?ks))\<rparr>"
    by (simp add: without_def stubbed_page_document)
  note a = header_removal_healed[of stubbed_page ?hp ?ks full_header "without (has_id HEADER_ID)"
      "removal_record (has_id HEADER_ID)" "[removal_record (has_id HEADER_ID)]", THEN conjunct1]
  have 1: "\<not> stub_reachable (document (without (has_id HEADER_ID)))
     \<and> stub_reachable_once
        (document (mutation_callback [removal_record (has_id HEADER_ID)] (without (has_id HEADER_ID))))
     \<and> stub_reachable_once (document (periodic_check (without (has_id HEADER_ID))))"
    using a stubbed_page_document f c nh w by (simp add: r)
  have n: "\<not> list_ex (\<lambda>m. mtype m = ChildList \<and> list_ex removed_header (removedNodes m))
         [\<lparr>mtype = ChildList, removedNodes = [new_stub]\<rparr>]"
    by (simp add: new_stub_def createElement_def HEADER_ID_def)
  have g: "getElementById HEADER_ID (document stubbed_page) \<noteq> None"
    using f by (simp add: stubbed_page_document getElementById_def has_id_def HEADER_ID_def
        elem_def split: option.splits)
  note b = header_removal_healed[where s = stubbed_page
      and mutations = "[\<lparr>mtype = ChildList, removedNodes = [new_stub]\<rparr>]",
      THEN conjunct2]
  have 2: "mutation_callback [\<lparr>mtype = ChildList, removedNodes = [new_stub]\<rparr>] stubbed_page
       = stubbed_page" "periodic_check stubbed_page = stubbed_page"
    using b n g stubbed_page_ensured by blast+
  show ?thesis
    using 1 2 n g stubbed_page_document stubbed_page_reachable stubbed_page_ensured
    by (simp add: r)
qed

theorem header_removal_healed_counterexample:
  "stub_reachable_once (document stubbed_page)
   \<and> removedNodes (removal_record (has_class ''container'')) \<noteq> []
   \<and> \<not> stub_reachable (document (without (has_class ''container'')))
   \<and> mutation_callback [removal_record (has_class ''container'')] (without (has_class ''container''))
       = without (has_class ''container'')
   \<and> periodic_check (without (has_class ''container'')) = without (has_class ''container'')"
proof -
  have d: "document (without (has_class ''container''))
     = Some (Element \<lparr>localName = ''html'', elem_id = [], className = [], cssText = [], attributes = []\<rparr>
         [elem ''head'' [],
          Element \<lparr>localName = ''body'', elem_id = [], className = [], cssText = [], attributes = []\<rparr>
            [Element \<lparr>localName = ''div'', elem_id = ''home-header2'', className = [],
               cssText = ''display: none !important; visibility: hidden !important; position: absolute; left: -9999px;'',
               attributes = [(''data-legacy-guard'', ''v4'')]\<rparr> [],
             Text ''hello'']])"
    by (simp add: without_def stubbed_page_document full_header_def eval_defs)
  have e: "stubEnsured (without (has_class ''container''))"
    using stubbed_page_ensured by (simp add: without_def)
  have r: "removedNodes (removal_record (has_class ''container''))
     = [Element \<lparr>localName = ''div'', elem_id = [], className = ''container'',
               cssText = ''display: none !important;'', attributes = []\<rparr>
          [Element \<lparr>localName = ''div'', elem_id = [], className = [],
               cssText = ''display: none !important;'', attributes = []\<rparr>
             [new_stub]]]"
    by (simp add: removal_record_def stubbed_page_document full_header_def eval_defs)
  have t: "mtype (removal_record (has_class ''container'')) = ChildList"
    by (simp add: removal_record_def)
  have 1: "\<not> stub_reachable (document (without (has_class ''container'')))"
    by (simp add: d eval_defs)
  have 2: "mutation_callback [removal_record (has_class ''container'')] (without (has_class ''container''))
       = without (has_class ''container'')"
    by (simp add: mutation_callback_def r t eval_defs)
  have 3: "periodic_check (without (has_class ''container'')) = without (has_class ''container'')"
    by (simp add: periodic_check_def e d eval_defs)
  show ?thesis using stubbed_page_reachable 1 2 3 by (simp add: r)
qed

section \<open>C3: the click guard\<close>

text \<open>
  Claim C3, as amended. When the target of a click is itself a \<open>button\<close>, an \<open>a\<close> or
  an element with \<open>role="button"\<close>, and its text content contains \<open>Join session\<close> (so
  also when it is exactly that), the listener calls \<open>ensureStub\<close> before it returns and
  schedules the two later calls. When the document held no element with the header's
  id, the stub was not reachable before and is reachable, exactly once, when the
  listener returns. When the target is an element of any other kind, the listener does
  nothing, whatever the target's text and ancestors are.
\<close>

theorem click_guard_ensures:
  "(target e = Some (Element p ks) \<and> matches_button p
      \<and> js_includes (textContent (Element p ks)) ''Join session'' \<longrightarrow>
      click_listener_body e s
        = (let s2 = snd (ensureStub
                      (console_log [Str TAG, Str ''Join session click detected, ensuring stub...''] s))
           in Inr (s2\<lparr>timeouts := timeouts s2 @ [100, 500]\<rparr>)))
   \<and> (target e = Some (Element p ks) \<and> matches_button p
      \<and> js_includes (textContent (Element p ks)) ''Join session''
      \<and> wf_document (document s) \<and> document s \<noteq> None
      \<and> getElementById HEADER_ID (document s) = None \<longrightarrow>
      \<not> stub_reachable (document s)
      \<and> (\<exists>s'. click_listener_body e s = Inr s' \<and> stub_reachable_once (document s')))
   \<and> (target e = Some (Element p ks) \<and> \<not> matches_button p \<longrightarrow>
      click_listener_body e s = Inr s)"
proof (intro conjI impI)
  assume "target e = Some (Element p ks) \<and> matches_button p
      \<and> js_includes (textContent (Element p ks)) ''Join session''"
  then show "click_listener_body e s
        = (let s2 = snd (ensureStub
                      (console_log [Str TAG, Str ''Join session click detected, ensuring stub...''] s))
           in Inr (s2\<lparr>timeouts := timeouts s2 @ [100, 500]\<rparr>))"
    by (simp add: click_listener_body_def isJoinButton_def)
next
  assume a: "target e = Some (Element p ks) \<and> matches_button p
      \<and> js_includes (textContent (Element p ks)) ''Join session''
      \<and> wf_document (document s) \<and> document s \<noteq> None
      \<and> getElementById HEADER_ID (document s) = None"
  then show "\<not> stub_reachable (document s)"
    by (simp add: stub_reachable_def fresh_not_reachable)
  have "stub_reachable_once (ensured (document s))"
    using a by (simp add: fresh_reachable_once)
  then show "\<exists>s'. click_listener_body e s = Inr s' \<and> stub_reachable_once (document s')"
    using a by (simp add: click_listener_body_def isJoinButton_def Let_def ensureStub_document)
next
  assume "target e = Some (Element p ks) \<and> \<not> matches_button p"
  then show "click_listener_body e s = Inr s"
    by (simp add: click_listener_body_def isJoinButton_def)
qed

text \<open>
  Witness and counterexample for C3: a click on a button reading "Join session", and a
  click on a span with the same text inside a button, which the listener ignores.
\<close>

theorem click_guard_ensures_witness:
  "target \<lparr>target = Some join_button, href = None\<rparr> = Some join_button
   \<and> textContent join_button = ''Join session''
   \<and> wf_document plain_document \<and> plain_document \<noteq> None
   \<and> getElementById HEADER_ID plain_document = None
   \<and> \<not> stub_reachable plain_document
   \<and> (\<exists>s'. click_listener_body \<lparr>target = Some join_button, href = None\<rparr>
              (fresh_page plain_document Complete) = Inr s'
           \<and> stub_reachable_once (document s'))
   \<and> click_listener_body \<lparr>target = Some join_span, href = None\<rparr>
        (fresh_page plain_document Complete) = Inr (fresh_page plain_document Complete)"
proof -
  let ?bp = "\<lparr>localName = ''button'', elem_id = [], className = [], cssText = [], attributes = []\<rparr>"
  let ?sp = "\<lparr>localName = ''span'', elem_id = [], className = [], cssText = [], attributes = []\<rparr>"
  have p: "document (fresh_page plain_document Complete) = plain_document"
    by (simp add: fresh_page_def)
  have w: "wf_document plain_document" "plain_document \<noteq> None"
    using body_wf[OF plain_document_facts(1)] by simp_all
  have jb: "join_button = Element ?bp [Text ''Join session'']"
    by (simp add: join_button_def elem_def)
  have js: "join_span = Element ?sp [Text ''Join session'']"
    by (simp add: join_span_def elem_def)
  have ns: "\<not> matches_button ?sp"
    by (simp add: matches_button_def)
  note a = click_guard_ensures[of "\<lparr>target = Some join_button, href = None\<rparr>"
      ?bp "[Text ''Join session'']" "fresh_page plain_document Complete",
      THEN conjunct2, THEN conjunct1]
  note b = click_guard_ensures[of "\<lparr>target = Some join_span, href = None\<rparr>"
      ?sp "[Text ''Join session'']" "fresh_page plain_document Complete",
      THEN conjunct2, THEN conjunct2]
  have 1: "\<not> stub_reachable plain_document
     \<and> (\<exists>s'. click_listener_body \<lparr>target = Some join_button, href = None\<rparr>
              (fresh_page plain_document Complete) = Inr s'
           \<and> stub_reachable_once (document s'))"
    using a w plain_document_facts(2) join_button_facts by (simp add: p jb)
  have 2: "click_listener_body \<lparr>target = Some join_span, href = None\<rparr>
        (fresh_page plain_document Complete) = Inr (fresh_page plain_document Complete)"
    using b ns by (simp add: js)
  show ?thesis
    using 1 2 w plain_document_facts(2) join_button_facts by simp
qed

theorem click_guard_ensures_counterexample:
  "textContent join_span = ''Join session''
   \<and> click_listener_body \<lparr>target = Some join_span, href = None\<rparr> join_page = Inr join_page
   \<and> \<not> stub_reachable (document join_page)"
  by (simp add: join_span_def join_page_def elem_def click_listener_body_def isJoinButton_def
      matches_button_def fresh_page_def stub_reachable_def querySelector_SEL_def
      querySelectorAll_SEL_def has_id_def HEADER_ID_def has_class_def classList_def has_tag_def)

section \<open>C4: \<open>ensureStub\<close> reports a chain the selector cannot reach\<close>

text \<open>
  Claim C4 fails on the code where the container of the header holds its first \<open>div\<close>
  inside another element. The script's comment says it ensures \<open>.container > div\<close>, a
  child, as the guarded selector asks; it looks the inner div up with
  \<open>container.querySelector('div')\<close>, which accepts a \<open>div\<close> at any depth. On
  \<open>nested_div_document\<close>, which has a body, whatever the rest of the page is, the call
  raises nothing, returns \<open>True\<close>, sets \<open>stubEnsured\<close>, logs that the structure was
  verified or created, and creates no node; the guarded selector matches nothing in the
  document, before the call and after any number of calls.
\<close>

theorem ensureStub_misses_nested_div:
  "document_body nested_div_document \<noteq> None
   \<and> ensureStub (s\<lparr>document := nested_div_document\<rparr>)
       = (True, s\<lparr>document := nested_div_document, stubEnsured := True,
                   console := console s @ [success_log]\<rparr>)
   \<and> querySelector_SEL nested_div_document = None
   \<and> document (ensureStub_times n (s\<lparr>document := nested_div_document\<rparr>)) = nested_div_document
   \<and> \<not> stub_reachable (document (ensureStub_times n (s\<lparr>document := nested_div_document\<rparr>)))"
proof -
  obtain root where root: "nested_div_document = Some root"
    by (simp add: nested_div_document_def)
  have found: "find_node (has_id HEADER_ID) root \<noteq> None"
    using nested_div_chain
    by (auto simp: root lookups_succeed_def getElementById_def split: option.splits)
  have same: "ensured_root root = root"
    using nested_div_chain lookups_succeed_fix by (simp add: root)
  have 1: "document_body nested_div_document \<noteq> None"
    by (simp add: nested_div_document_def elem_def document_body_def)
  have 2: "ensureStub (s\<lparr>document := nested_div_document\<rparr>)
       = (True, s\<lparr>document := nested_div_document, stubEnsured := True,
                   console := console s @ [success_log]\<rparr>)"
    using ensureStub_try_found[of "s\<lparr>document := nested_div_document\<rparr>" root] found
    by (simp add: ensureStub_def root same)
  have 3: "querySelector_SEL nested_div_document = None"
    by (simp add: nested_div_document_def elem_def querySelector_SEL_def querySelectorAll_SEL_def
        has_id_def HEADER_ID_def has_class_def classList_def has_tag_def is_ws_def)
  have 4: "document (ensureStub_times n (s\<lparr>document := nested_div_document\<rparr>))
      = nested_div_document"
  proof (cases n)
    case 0
    then show ?thesis by simp
  next
    case (Suc m)
    then show ?thesis
      using lookups_succeed_unchanged[OF nested_div_chain]
      by (simp only: ensureStub_times_document) simp
  qed
  have 5: "\<not> stub_reachable (document (ensureStub_times n (s\<lparr>document := nested_div_document\<rparr>)))"
    using 3 by (simp add: 4 stub_reachable_def)
  show ?thesis using 1 2 3 4 5 by blast
qed

section \<open>C5: the phases of initialization\<close>

text \<open>
  Claim C5, as amended. A page on which the script has not run is uninitialized. \<open>init\<close>
  runs \<open>ensureStub\<close> and installs, before it returns, the function guards, the patched
  \<open>querySelector\<close>, the click listener, the load listener and the interval timer of
  the periodic check: the document it leaves is the document one call of \<open>ensureStub\<close>
  leaves. When the document is still loading, \<open>init\<close> leaves the guard bootstrapping,
  with the \<open>DOMContentLoaded\<close> listener registered and \<open>ensureStub\<close> completed once;
  otherwise it runs \<open>ensureStub\<close> a second time and sets the observer up at once. A
  bootstrapping guard leaves that phase at the \<open>DOMContentLoaded\<close> event and at no
  other event: \<open>ensureStub\<close> runs again and the observer is created, and the guard is
  active when the document has a body at that moment. (When it has none, the observer
  is attached to nothing and stays so.) An active guard stays active. The mutation
  observer is set up at that transition and not before: mutation records reach the
  callback of an active guard and of no other. The periodic check runs from first load,
  also while the guard is bootstrapping.
\<close>

theorem init_state_machine:
  "phase (fresh_page doc rs) = Uninitialized
   \<and> guards_installed (snd (init (w, fresh_page doc rs)))
   \<and> fst (init (w, fresh_page doc rs)) x
       = (if x \<in> set legacyFunctions
          then (case w x of Some (Function f) \<Rightarrow> Some (Function (safeWrap f x)) | v \<Rightarrow> v)
          else w x)
   \<and> document (snd (init (w, fresh_page doc rs))) = ensured doc
   \<and> (wf_document doc \<longrightarrow>
        stubEnsured (snd (init (w, fresh_page doc rs)))
        \<and> count_log success_log (snd (init (w, fresh_page doc rs)))
            = (if rs = Loading then 1 else 2))
   \<and> (rs = Loading \<longrightarrow>
        phase (snd (init (w, fresh_page doc rs))) = Bootstrapping
        \<and> domContentLoaded_listener (snd (init (w, fresh_page doc rs))))
   \<and> (rs \<noteq> Loading \<longrightarrow>
        phase (snd (init (w, fresh_page doc rs)))
          = (if document_body doc \<noteq> None then Active else Unattached))
   \<and> (phase s = Bootstrapping \<and> domContentLoaded_listener s \<longrightarrow>
        phase (step ev s)
          = (if ev = DOMContentLoaded
             then (if document_body (document s) \<noteq> None then Active else Unattached)
             else Bootstrapping)
        \<and> domContentLoaded_listener (step ev s)
        \<and> document (step DOMContentLoaded s) = ensured (document s)
        \<and> (wf_document (document s) \<longrightarrow>
              count_log success_log (step DOMContentLoaded s) = count_log success_log s + 1)
        \<and> step (Observed ms) s = s
        \<and> (interval_timer s \<noteq> None \<longrightarrow> step Tick s = periodic_check s))
   \<and> (phase s = Active \<longrightarrow>
        phase (step ev s) = Active \<and> step (Observed ms) s = mutation_callback ms s)
   \<and> (phase s = Unattached \<longrightarrow>
        phase (step ev s) = Unattached \<and> step (Observed ms) s = s)"
proof (intro conjI impI)
  show "phase (fresh_page doc rs) = Uninitialized"
    by (simp add: phase_def fresh_page_def)
  show "guards_installed (snd (init (w, fresh_page doc rs)))"
    using init_loading[of w doc] init_loaded[of rs w doc] by (cases "rs = Loading") auto
  show "fst (init (w, fresh_page doc rs)) x
       = (if x \<in> set legacyFunctions
          then (case w x of Some (Function f) \<Rightarrow> Some (Function (safeWrap f x)) | v \<Rightarrow> v)
          else w x)"
    by (rule init_window)
  show "document (snd (init (w, fresh_page doc rs))) = ensured doc"
    using init_loading[of w doc] init_loaded[of rs w doc] by (cases "rs = Loading") auto
next
  assume wf: "wf_document doc"
  show "stubEnsured (snd (init (w, fresh_page doc rs)))"
    using wf init_loading[of w doc] init_loaded[of rs w doc] by (cases "rs = Loading") auto
  show "count_log success_log (snd (init (w, fresh_page doc rs)))
      = (if rs = Loading then 1 else 2)"
    using wf init_loading[of w doc] init_loaded[of rs w doc] by (cases "rs = Loading") auto
next
  assume "rs = Loading"
  then show "phase (snd (init (w, fresh_page doc rs))) = Bootstrapping"
    "domContentLoaded_listener (snd (init (w, fresh_page doc rs)))"
    using init_loading[of w doc] by (auto simp: phase_def guards_installed_def)
next
  assume "rs \<noteq> Loading"
  then show "phase (snd (init (w, fresh_page doc rs)))
      = (if document_body doc \<noteq> None then Active else Unattached)"
    using init_loaded[of rs w doc] by (simp add: phase_def)
next
  assume a: "phase s = Bootstrapping \<and> domContentLoaded_listener s"
  then show "phase (step ev s)
      = (if ev = DOMContentLoaded
         then (if document_body (document s) \<noteq> None then Active else Unattached)
         else Bootstrapping)"
    using step_bootstrapping(1) by blast
  show "domContentLoaded_listener (step ev s)"
    using a step_bootstrapping(2) by blast
  show "document (step DOMContentLoaded s) = ensured (document s)"
    using a step_DOMContentLoaded(1) by blast
  show "step (Observed ms) s = s"
    using a by (auto simp: phase_def split: option.splits if_splits)
  show "wf_document (document s) \<Longrightarrow>
      count_log success_log (step DOMContentLoaded s) = count_log success_log s + 1"
    using a step_DOMContentLoaded(2) by blast
  show "interval_timer s \<noteq> None \<Longrightarrow> step Tick s = periodic_check s"
    by (simp add: interval_tick_def)
next
  assume "phase s = Active"
  then show "phase (step ev s) = Active" by (rule step_settled(1))
  show "step (Observed ms) s = mutation_callback ms s"
    using \<open>phase s = Active\<close> by (auto simp: phase_def split: option.splits if_splits)
next
  assume "phase s = Unattached"
  then show "phase (step ev s) = Unattached" by (rule step_settled(2))
  show "step (Observed ms) s = s"
    using \<open>phase s = Unattached\<close> by (auto simp: phase_def split: option.splits if_splits)
qed

text \<open>
  Witness and counterexample for C5: the page after \<open>init\<close> on a document that is still
  loading and has no body yet. The guard is bootstrapping and a tick leaves it so; once
  the parser has built the body, \<open>DOMContentLoaded\<close> runs \<open>ensureStub\<close> again and makes
  the guard active, and it stays active. On a complete document \<open>init\<close> makes the guard
  active at once, with two completed calls of \<open>ensureStub\<close>. The counterexample: the
  interval timer is registered while the guard is still bootstrapping, and a tick
  before \<open>DOMContentLoaded\<close> already runs the periodic check and restores the stub.
\<close>

theorem init_state_machine_witness:
  "wf_document cold_document
   \<and> phase loading_page = Bootstrapping \<and> domContentLoaded_listener loading_page
   \<and> document loading_page = ensured cold_document
   \<and> stubEnsured loading_page \<and> count_log success_log loading_page = 1
   \<and> phase (step Tick loading_page) = Bootstrapping
   \<and> phase (step (ExternalMutation plain_document) loading_page) = Bootstrapping
   \<and> domContentLoaded_listener (step (ExternalMutation plain_document) loading_page)
   \<and> document_body (document (step (ExternalMutation plain_document) loading_page)) \<noteq> None
   \<and> phase (step DOMContentLoaded (step (ExternalMutation plain_document) loading_page)) = Active
   \<and> document (step DOMContentLoaded (step (ExternalMutation plain_document) loading_page))
       = ensured plain_document
   \<and> count_log success_log
        (step DOMContentLoaded (step (ExternalMutation plain_document) loading_page)) = 2
   \<and> phase (step Load
        (step DOMContentLoaded (step (ExternalMutation plain_document) loading_page))) = Active
   \<and> interval_timer loading_page \<noteq> None
   \<and> step Tick loading_page = periodic_check loading_page
   \<and> step (Observed [\<lparr>mtype = ChildList, removedNodes = [full_header]\<rparr>]) loading_page
       = loading_page
   \<and> step (Observed [\<lparr>mtype = ChildList, removedNodes = [full_header]\<rparr>])
         (step DOMContentLoaded (step (ExternalMutation plain_document) loading_page))
       = mutation_callback [\<lparr>mtype = ChildList, removedNodes = [full_header]\<rparr>]
           (step DOMContentLoaded (step (ExternalMutation plain_document) loading_page))
   \<and> phase (step DOMContentLoaded loading_page) = Unattached
   \<and> phase (step Tick (step DOMContentLoaded loading_page)) = Unattached
   \<and> Complete \<noteq> Loading \<and> wf_document plain_document
   \<and> phase (snd (init (Map.empty, fresh_page plain_document Complete))) = Active
   \<and> count_log success_log (snd (init (Map.empty, fresh_page plain_document Complete))) = 2"
proof -
  let ?m = "step (ExternalMutation plain_document) loading_page"
  have wc: "wf_document cold_document" by (rule cold_document_facts(1))
  have wp: "wf_document plain_document" using body_wf[OF plain_document_facts(1)] by simp
  note i = init_state_machine[of cold_document Loading Map.empty _ loading_page]
  have b: "phase loading_page = Bootstrapping" "domContentLoaded_listener loading_page"
    "document loading_page = ensured cold_document"
    "stubEnsured loading_page" "count_log success_log loading_page = 1"
    using i wc by (simp_all add: loading_page_def)
  have t: "phase (step Tick loading_page) = Bootstrapping"
    using init_state_machine[of cold_document Loading Map.empty _ loading_page Tick] b by simp
  have m: "phase ?m = Bootstrapping" "domContentLoaded_listener ?m"
    using init_state_machine[of cold_document Loading Map.empty _ loading_page
        "ExternalMutation plain_document"] b
    by simp_all
  have dm: "document ?m = plain_document" by simp
  have cm: "count_log success_log ?m = 1"
    using b(5) by (simp add: count_log_def)
  have bm: "document_body (document ?m) \<noteq> None"
    using plain_document_facts(1) by simp
  note j = init_state_machine[of cold_document Loading Map.empty _ ?m DOMContentLoaded,
      THEN conjunct2, THEN conjunct2, THEN conjunct2, THEN conjunct2, THEN conjunct2,
      THEN conjunct2, THEN conjunct2, THEN conjunct1, rule_format, OF conjI[OF m]]
  have d: "phase (step DOMContentLoaded ?m) = Active"
    "document (step DOMContentLoaded ?m) = ensured plain_document"
    "count_log success_log (step DOMContentLoaded ?m) = 2"
    using j bm wp cm by simp_all
  have l: "phase (step Load (step DOMContentLoaded ?m)) = Active"
    using init_state_machine[of cold_document Loading Map.empty _
        "step DOMContentLoaded ?m" Load] d(1)
    by simp
  let ?ms = "[\<lparr>mtype = ChildList, removedNodes = [full_header]\<rparr>]"
  have g: "guards_installed loading_page"
    using i by (simp add: loading_page_def)
  then have ti: "interval_timer loading_page \<noteq> None"
    by (simp add: guards_installed_def)
  have o: "step Tick loading_page = periodic_check loading_page"
    "step (Observed ?ms) loading_page = loading_page"
    using init_state_machine[of cold_document Loading Map.empty _ loading_page Tick ?ms] b ti
    by simp_all
  have oa: "step (Observed ?ms) (step DOMContentLoaded ?m)
      = mutation_callback ?ms (step DOMContentLoaded ?m)"
    using init_state_machine[of cold_document Loading Map.empty _
        "step DOMContentLoaded ?m" Tick ?ms] d(1)
    by simp
  have u: "phase (step DOMContentLoaded loading_page) = Unattached"
    using init_state_machine[of cold_document Loading Map.empty _ loading_page
        DOMContentLoaded] b cold_document_facts(2) document_body_ensured[of cold_document]
    by simp
  have ut: "phase (step Tick (step DOMContentLoaded loading_page)) = Unattached"
    using init_state_machine[of cold_document Loading Map.empty _
        "step DOMContentLoaded loading_page" Tick] u
    by simp
  have c: "phase (snd (init (Map.empty, fresh_page plain_document Complete))) = Active"
    "count_log success_log (snd (init (Map.empty, fresh_page plain_document Complete))) = 2"
    using init_state_machine[of plain_document Complete Map.empty _ loading_page]
      plain_document_facts(1) wp
    by simp_all
  show ?thesis using wc wp b t m bm d l ti o oa u ut c by simp
qed

theorem init_state_machine_counterexample:
  "phase loading_page = Bootstrapping
   \<and> interval_timer loading_page = Some 2000
   \<and> phase (step Tick (step (ExternalMutation plain_document) loading_page)) = Bootstrapping
   \<and> stub_reachable_once
        (document (step Tick (step (ExternalMutation plain_document) loading_page)))"
proof -
  have i: "observer loading_page = None" "domContentLoaded_listener loading_page"
    "guards_installed loading_page"
    using init_loading[of Map.empty cold_document] by (simp_all add: loading_page_def)
  then have b: "phase loading_page = Bootstrapping"
    by (simp add: phase_def guards_installed_def)
  have t: "interval_timer loading_page = Some 2000"
    using i by (simp add: guards_installed_def)
  let ?s = "step (ExternalMutation plain_document) loading_page"
  have e: "phase ?s = Bootstrapping" "domContentLoaded_listener ?s"
    using b i step_bootstrapping[of loading_page "ExternalMutation plain_document"] by simp_all
  have p: "phase (step Tick ?s) = Bootstrapping"
    using step_bootstrapping(1)[OF e, of Tick] by simp
  have "document (step Tick ?s) = ensured plain_document"
    using t plain_document_facts(2)
    by (simp add: interval_tick_def periodic_check_document)
  then have r: "stub_reachable_once (document (step Tick ?s))"
    using fresh_reachable_once[of plain_document] body_wf[OF plain_document_facts(1)]
      plain_document_facts(2)
    by simp
  show ?thesis using b t p r by simp
qed

section \<open>C6: the wrapped functions\<close>

text \<open>
  Claim C6. Every guarded name that \<open>window\<close> defines as a function is replaced by
  \<open>safeWrap\<close> of that function. The wrapper calls \<open>ensureStub\<close> first and then the
  original, with the same \<open>this\<close> and arguments, on the page \<open>ensureStub\<close> has left.
  When the original returns, the wrapper returns its result and its page; when the
  original throws, the wrapper logs a warning that names the function and carries the
  thrown value, and returns \<open>null\<close>.
\<close>

theorem wrapped_function_safe:
  "(fname \<in> set legacyFunctions \<and> w fname = Some (Function fn) \<longrightarrow>
      fst (wrapLegacyFunctions (w, s)) fname = Some (Function (safeWrap fn fname)))
   \<and> (fn this args (snd (ensureStub s)) = (Inr result, s2) \<longrightarrow>
      safeWrap fn name this args s = (Inr result, s2))
   \<and> (fn this args (snd (ensureStub s)) = (Inl err, s2) \<longrightarrow>
      safeWrap fn name this args s
        = (Inr Null, console_warn [Str TAG, Str (''Caught error in '' @ name @ '':''), err] s2))"
  by (simp add: wrapLegacyFunctions_window safeWrap_def)

text \<open>
  Witness for C6: a window that defines a throwing function and a returning function
  under two of the guarded names.
\<close>

theorem wrapped_function_safe_witness:
  "''updateTabletBadge'' \<in> set legacyFunctions
   \<and> legacy_window ''updateTabletBadge'' = Some (Function throwing_function)
   \<and> fst (wrapLegacyFunctions (legacy_window, fresh_page plain_document Complete)) ''updateTabletBadge''
       = Some (Function (safeWrap throwing_function ''updateTabletBadge''))
   \<and> fst (safeWrap throwing_function ''updateTabletBadge'' Undefined [] (fresh_page plain_document Complete))
       = Inr Null
   \<and> last (console (snd (safeWrap throwing_function ''updateTabletBadge'' Undefined []
                            (fresh_page plain_document Complete))))
       = (Warn, [Str TAG, Str ''Caught error in updateTabletBadge:'', Str ''lastChild of null''])
   \<and> safeWrap returning_function ''refreshNotifications'' Null [Str ''a'']
         (fresh_page plain_document Complete)
       = (Inr (Str ''a''), snd (ensureStub (fresh_page plain_document Complete)))"
proof -
  let ?s = "fresh_page plain_document Complete"
  have m: "''updateTabletBadge'' \<in> set legacyFunctions"
    by (simp add: legacyFunctions_def)
  have w: "legacy_window ''updateTabletBadge'' = Some (Function throwing_function)"
    by (simp add: legacy_window_def)
  have t: "throwing_function Undefined [] (snd (ensureStub ?s))
      = (Inl (Str ''lastChild of null''), snd (ensureStub ?s))"
    by (simp add: throwing_function_def)
  have r: "returning_function Null [Str ''a''] (snd (ensureStub ?s))
      = (Inr (Str ''a''), snd (ensureStub ?s))"
    by (simp add: returning_function_def)
  note a = wrapped_function_safe[where fname = "''updateTabletBadge''" and w = legacy_window
      and fn = throwing_function and s = ?s, THEN conjunct1]
  note b = wrapped_function_safe[where fn = throwing_function and s = ?s and this = Undefined
      and args = "[]" and name = "''updateTabletBadge''" and err = "Str ''lastChild of null''"
      and ?s2.0 = "snd (ensureStub ?s)", THEN conjunct2, THEN conjunct2]
  note c = wrapped_function_safe[where fn = returning_function and s = ?s and this = Null
      and args = "[Str ''a'']" and name = "''refreshNotifications''" and result = "Str ''a''"
      and ?s2.0 = "snd (ensureStub ?s)", THEN conjunct2, THEN conjunct1]
  show ?thesis
    using a b c m w t r by (simp add: console_warn_def)
qed

section \<open>C7: the patched \<open>querySelector\<close>\<close>

text \<open>
  Claim C7, as amended. When the selector contains \<open>home-header2\<close> and the original
  lookup finds nothing, the patched \<open>querySelector\<close> calls \<open>ensureStub\<close> once and
  returns what one more original lookup finds in the document left by that call; in
  every other case it returns the first lookup's result and leaves the page alone. For the
  guarded selector, on a document that has a document element and no element with the
  header's id, the first lookup finds nothing and the patched call returns the newly
  created inner div, whose last child is the new marker.
\<close>

theorem patched_querySelector_repairs:
  "(originalQuerySelector selector (document s) = Inr None
      \<and> js_includes selector ''home-header2'' \<longrightarrow>
      patched_querySelector originalQuerySelector selector s
        = (let s2 = snd (ensureStub
                      (console_warn
                         [Str TAG, Str (''querySelector returned null for: '' @ selector @ '', ensuring stub...'')] s))
           in (originalQuerySelector selector (document s2), s2)))
   \<and> (originalQuerySelector selector (document s) \<noteq> Inr None
        \<or> \<not> js_includes selector ''home-header2'' \<longrightarrow>
      patched_querySelector originalQuerySelector selector s
        = (originalQuerySelector selector (document s), s))
   \<and> (wf_document (document s) \<and> document s \<noteq> None
        \<and> getElementById HEADER_ID (document s) = None \<longrightarrow>
      guarded_lookup SEL (document s) = Inr None
      \<and> (\<exists>m. fst (patched_querySelector guarded_lookup SEL s) = Inr (Some m)
             \<and> appendChild new_innerDiv new_stub = Inr m
             \<and> lastChild m = Some new_stub))"
proof (intro conjI impI)
  assume "originalQuerySelector selector (document s) = Inr None
      \<and> js_includes selector ''home-header2''"
  then show "patched_querySelector originalQuerySelector selector s
        = (let s2 = snd (ensureStub
                      (console_warn
                         [Str TAG, Str (''querySelector returned null for: '' @ selector @ '', ensuring stub...'')] s))
           in (originalQuerySelector selector (document s2), s2))"
    by (simp add: patched_querySelector_def)
next
  assume "originalQuerySelector selector (document s) \<noteq> Inr None
        \<or> \<not> js_includes selector ''home-header2''"
  then show "patched_querySelector originalQuerySelector selector s
        = (originalQuerySelector selector (document s), s)"
    by (cases "originalQuerySelector selector (document s)")
       (auto simp: patched_querySelector_def)
next
  assume a: "wf_document (document s) \<and> document s \<noteq> None
        \<and> getElementById HEADER_ID (document s) = None"
  then show "guarded_lookup SEL (document s) = Inr None"
    by (simp add: guarded_lookup_def fresh_not_reachable)
  have inc: "js_includes SEL ''home-header2''"
    by (simp add: SEL_def)
  have "querySelector_SEL (ensured (document s)) = Some full_innerDiv"
    using a by (simp add: querySelector_SEL_def fresh_ensured(1))
  then have "fst (patched_querySelector guarded_lookup SEL s) = Inr (Some full_innerDiv)"
    using a inc
    by (simp add: patched_querySelector_def guarded_lookup_def fresh_not_reachable
        ensureStub_document Let_def)
  then show "\<exists>m. fst (patched_querySelector guarded_lookup SEL s) = Inr (Some m)
             \<and> appendChild new_innerDiv new_stub = Inr m
             \<and> lastChild m = Some new_stub"
    by (simp add: appendChild_new_innerDiv full_innerDiv_lastChild)
qed

text \<open>
  Witness and counterexample for C7: the plain document; and a document with no document
  element, where \<open>ensureStub\<close> returns \<open>True\<close> with the new header left detached and the
  second lookup still finds nothing.
\<close>

theorem patched_querySelector_repairs_witness:
  "guarded_lookup SEL plain_document = Inr None
   \<and> js_includes SEL ''home-header2''
   \<and> wf_document plain_document \<and> plain_document \<noteq> None
   \<and> getElementById HEADER_ID plain_document = None
   \<and> (\<exists>m. fst (patched_querySelector guarded_lookup SEL (fresh_page plain_document Complete))
            = Inr (Some m) \<and> lastChild m = Some new_stub)
   \<and> patched_querySelector guarded_lookup SEL (fresh_page plain_document Complete)
       = (guarded_lookup SEL
            (document (snd (ensureStub (console_warn
               [Str TAG, Str (''querySelector returned null for: '' @ SEL @ '', ensuring stub...'')]
               (fresh_page plain_document Complete))))),
          snd (ensureStub (console_warn
               [Str TAG, Str (''querySelector returned null for: '' @ SEL @ '', ensuring stub...'')]
               (fresh_page plain_document Complete))))
   \<and> \<not> js_includes ''body'' ''home-header2''
   \<and> patched_querySelector guarded_lookup ''body'' (fresh_page plain_document Complete)
       = (Inr None, fresh_page plain_document Complete)"
proof -
  let ?s = "fresh_page plain_document Complete"
  have p: "document ?s = plain_document"
    by (simp add: fresh_page_def)
  have w: "wf_document plain_document" "plain_document \<noteq> None"
    using body_wf[OF plain_document_facts(1)] by simp_all
  have inc: "js_includes SEL ''home-header2''"
    by (simp add: SEL_def)
  have ninc: "\<not> js_includes ''body'' ''home-header2''"
    by simp
  have miss: "guarded_lookup SEL plain_document = Inr None"
    using plain_document_facts(2) by (simp add: guarded_lookup_def fresh_not_reachable)
  have other: "guarded_lookup ''body'' plain_document = Inr None"
    by (simp add: guarded_lookup_def SEL_def)
  note a = patched_querySelector_repairs[of guarded_lookup SEL ?s,
      THEN conjunct2, THEN conjunct2]
  note b = patched_querySelector_repairs[of guarded_lookup SEL ?s, THEN conjunct1]
  note c = patched_querySelector_repairs[of guarded_lookup "''body''" ?s,
      THEN conjunct2, THEN conjunct1]
  have 1: "\<exists>m. fst (patched_querySelector guarded_lookup SEL ?s) = Inr (Some m)
      \<and> lastChild m = Some new_stub"
    using a w plain_document_facts(2) by (auto simp: p)
  have 2: "patched_querySelector guarded_lookup SEL ?s
       = (guarded_lookup SEL
            (document (snd (ensureStub (console_warn
               [Str TAG, Str (''querySelector returned null for: '' @ SEL @ '', ensuring stub...'')]
               ?s)))),
          snd (ensureStub (console_warn
               [Str TAG, Str (''querySelector returned null for: '' @ SEL @ '', ensuring stub...'')]
               ?s)))"
    using b miss inc by (simp add: p Let_def)
  have 3: "patched_querySelector guarded_lookup ''body'' ?s = (Inr None, ?s)"
    using c ninc other by (simp add: p)
  show ?thesis
    using 1 2 3 miss inc ninc w plain_document_facts(2) by simp
qed

theorem patched_querySelector_repairs_counterexample:
  "guarded_lookup SEL (document (fresh_page None Complete)) = Inr None
   \<and> fst (ensureStub (fresh_page None Complete))
   \<and> fst (patched_querySelector guarded_lookup SEL (fresh_page None Complete)) = Inr None"
proof -
  have d: "document (fresh_page None Complete) = None"
    by (simp add: fresh_page_def)
  have inc: "js_includes SEL ''home-header2''"
    by (simp add: SEL_def)
  have q: "querySelector_SEL None = None"
    by (simp add: querySelector_SEL_def querySelectorAll_SEL_def)
  have "fst (ensureStub (fresh_page None Complete))"
    using ensureStub_true[of "fresh_page None Complete"] by (simp add: d wf_document_def)
  then show ?thesis using inc
    by (simp add: patched_querySelector_def guarded_lookup_def d q ensureStub_document
        ensured_def Let_def)
qed

section \<open>C8: the redirect round trip\<close>

text \<open>
  Claim C8, as amended. For every meeting URL that contains \<open>zoom.us\<close>, every session
  id, given or not, and every origin of the caregiver page (a string with no \<open>?\<close> and
  no \<open>#\<close>), the handler redirects, and the meeting page reads back from the address
  exactly that meeting URL, byte for byte; it reads back exactly the session id when one
  was given and is not empty, and no session id when none was given or it is empty.
\<close>

theorem redirect_round_trip:
  "js_includes u ''zoom.us'' \<and> CHR ''?'' \<notin> set origin \<and> CHR ''#'' \<notin> set origin \<longrightarrow>
     (\<exists>address. handleJoinSession origin (Some u) sessionIdParam = Redirect address
        \<and> fst (meeting_page_params (location_search address)) = Some u
        \<and> snd (meeting_page_params (location_search address))
            = (case sessionIdParam of None \<Rightarrow> None | Some i \<Rightarrow> if i = [] then None else Some i))"
  using handleJoinSession_params by blast

text \<open>
  Witness and counterexample for C8: a meeting URL with a space, a query and a fragment,
  with a session id that needs encoding; and the same with the empty session id, which
  the meeting page does not get back.
\<close>

theorem redirect_round_trip_witness:
  "js_includes sample_meeting ''zoom.us''
   \<and> CHR ''?'' \<notin> set ''https://app.example.com'' \<and> CHR ''#'' \<notin> set ''https://app.example.com''
   \<and> (\<exists>address.
         handleJoinSession ''https://app.example.com'' (Some sample_meeting) (Some ''rec 7&8'')
           = Redirect address
         \<and> fst (meeting_page_params (location_search address)) = Some sample_meeting
         \<and> snd (meeting_page_params (location_search address)) = Some ''rec 7&8'')"
proof -
  have o: "CHR ''?'' \<notin> set ''https://app.example.com''" "CHR ''#'' \<notin> set ''https://app.example.com''"
    by simp_all
  show ?thesis
    using redirect_round_trip[of sample_meeting "''https://app.example.com''" "Some ''rec 7&8''"]
      sample_meeting_zoom o
    by simp
qed

theorem redirect_round_trip_counterexample:
  "js_includes sample_meeting ''zoom.us''
   \<and> fst (meeting_page_params (location_search (address_of
        (handleJoinSession ''https://app.example.com'' (Some sample_meeting) (Some [])))))
       = Some sample_meeting
   \<and> snd (meeting_page_params (location_search (address_of
        (handleJoinSession ''https://app.example.com'' (Some sample_meeting) (Some [])))))
       = None"
proof -
  have o: "CHR ''?'' \<notin> set ''https://app.example.com''" "CHR ''#'' \<notin> set ''https://app.example.com''"
    by simp_all
  obtain address where
    "handleJoinSession ''https://app.example.com'' (Some sample_meeting) (Some []) = Redirect address"
    "fst (meeting_page_params (location_search address)) = Some sample_meeting"
    "snd (meeting_page_params (location_search address)) = None"
    using handleJoinSession_params[OF sample_meeting_zoom o, of "Some []"] by auto
  then show ?thesis using sample_meeting_zoom by (simp add: address_of_def)
qed

section \<open>C9: \<open>ensureStub\<close> only inserts\<close>

text \<open>
  Claim C9. For every page, the document after \<open>ensureStub\<close> is the document before
  it with nodes inserted: every node that was there is still there, with the same
  properties, the same parent and the same order among its siblings, so no existing
  node (a sibling of the stub or a level of the chain that was already present) is
  removed or altered; and at most four nodes are new.
\<close>

theorem ensureStub_only_inserts:
  "emb_doc (document s) (document (snd (ensureStub s)))
   \<and> doc_count (document (snd (ensureStub s))) \<le> doc_count (document s) + 4"
  by (simp add: ensureStub_document emb_ensured count_ensured)

section \<open>C10: the console override\<close>

text \<open>
  Claim C10 fails on the code where an argument does not convert: \<open>args.join(' ')\<close>
  runs before anything else, so a call with a symbol, or with an object whose
  conversion raises, raises \<open>TypeError\<close> out of \<open>console.error\<close> and is neither
  suppressed nor forwarded. The original \<open>console.error\<close> logs such a call.
\<close>

theorem console_error_raises:
  "console_error [Symbol d] s = Inl TypeError
   \<and> console_error [Str ''Request failed:'', Other None] s = Inl TypeError
   \<and> originalConsoleError [Symbol d] s = s\<lparr>console := console s @ [(Error, [Symbol d])]\<rparr>"
  by (simp add: console_error_def originalConsoleError_def)

end
